theory Spec2Isabelle
  imports Main "HOL-Library.Word"
begin

section \<open>The cost model: matrices that carry their flop count\<close>

text \<open>
  The model follows the variant of the program that has optional matrix names,
  synthesized labels and the token \<open>*\<close> in the rendered order. The C++ type \<open>int\<close> is
  modelled as a 32-bit word: \<open>+\<close>, \<open>-\<close> and \<open>*\<close> are the two's-complement operations of
  the machine, which wrap around where C++ leaves signed overflow undefined, and
  comparisons are the signed ones (\<open><s\<close>, \<open>\<le>s\<close>). The class \<open>Matrix\<close> has three private
  fields of that type.
\<close>

type_synonym cint = "32 word"

record Matrix =
  m_nrow :: cint
  m_ncol :: cint
  m_flops :: cint

text \<open>\<open>std::numeric_limits<int>::max()\<close>.\<close>

definition INT_MAX :: cint where
  "INT_MAX = 2147483647"

text \<open>The exceptions and aborts of the program: \<open>std::logic_error\<close> with its message,
  and a failed \<open>assert\<close>.\<close>

datatype failure = logic_error string | assertion_failed

text \<open>The public constructor \<open>Matrix(nrow, ncol)\<close> delegates to the private one with
  \<open>flops = 0\<close>.\<close>

definition new_Matrix :: "cint \<Rightarrow> cint \<Rightarrow> Matrix" where
  "new_Matrix nrow ncol = \<lparr>m_nrow = nrow, m_ncol = ncol, m_flops = 0\<rparr>"

definition calc_mat_add_flops :: "Matrix \<Rightarrow> Matrix \<Rightarrow> cint" where
  "calc_mat_add_flops A B = m_nrow A * m_ncol B"

definition calc_mat_mult_flops :: "Matrix \<Rightarrow> Matrix \<Rightarrow> cint" where
  "calc_mat_mult_flops A B = m_nrow A * m_ncol A * (2 * m_ncol B - 1)"

text \<open>\<open>std::to_string\<close> on an integer: decimal digits, with a leading minus sign.\<close>

definition digit_char :: "nat \<Rightarrow> char" where
  "digit_char d = ''0123456789'' ! d"

fun decimal :: "nat \<Rightarrow> string" where
  "decimal n = (if n < 10 then [digit_char n]
                else decimal (n div 10) @ [digit_char (n mod 10)])"

declare decimal.simps [simp del]

definition to_string :: "int \<Rightarrow> string" where
  "to_string v = (if v < 0 then CHR ''-'' # decimal (nat (- v)) else decimal (nat v))"

definition diff_dims_error :: "Matrix \<Rightarrow> Matrix \<Rightarrow> string" where
  "diff_dims_error A B =
     ''A: '' @ to_string (sint (m_nrow A)) @ ''x'' @ to_string (sint (m_ncol A)) @
     '', B: '' @ to_string (sint (m_nrow B)) @ ''x'' @ to_string (sint (m_ncol B))"

text \<open>\<open>Matrix::operator+\<close> and \<open>Matrix::operator*\<close>: the throw is the \<open>Inl\<close> branch.\<close>

definition operator_plus :: "Matrix \<Rightarrow> Matrix \<Rightarrow> failure + Matrix" where
  "operator_plus this other =
     (if m_nrow this \<noteq> m_nrow other \<or> m_ncol this \<noteq> m_ncol other
      then Inl (logic_error (''add: dimensions do not match: '' @ diff_dims_error this other))
      else Inr \<lparr>m_nrow = m_nrow this, m_ncol = m_ncol this,
                m_flops = m_flops this + m_flops other + calc_mat_add_flops this other\<rparr>)"

definition operator_times :: "Matrix \<Rightarrow> Matrix \<Rightarrow> failure + Matrix" where
  "operator_times this other =
     (if m_ncol this \<noteq> m_nrow other
      then Inl (logic_error (''mult: dimensions do not match: '' @ diff_dims_error this other))
      else Inr \<lparr>m_nrow = m_nrow this, m_ncol = m_ncol other,
                m_flops = m_flops this + m_flops other + calc_mat_mult_flops this other\<rparr>)"

section \<open>The chain order optimizer\<close>

text \<open>\<open>for_each_adjacent_pair\<close>, applied to a function that asserts a condition on
  each adjacent pair: the result tells whether every assertion passed.\<close>

fun for_each_adjacent_pair :: "('a \<Rightarrow> 'a \<Rightarrow> bool) \<Rightarrow> 'a list \<Rightarrow> bool" where
  "for_each_adjacent_pair func [] = True"
| "for_each_adjacent_pair func [x] = True"
| "for_each_adjacent_pair func (x # y # zs) = (func x y \<and> for_each_adjacent_pair func (y # zs))"

text \<open>The condition asserted on each adjacent pair of the chain.\<close>

definition dims_compatible :: "Matrix \<Rightarrow> Matrix \<Rightarrow> bool" where
  "dims_compatible m1 m2 = (m_ncol m1 = m_nrow m2)"

text \<open>The tables \<open>min_cost\<close> and \<open>min_index\<close> are vectors of vectors; \<open>t[i][j] = v\<close> is
  \<open>tbl_set t i j v\<close>. The entries of \<open>min_index\<close> are loop counters \<open>k < n\<close> or the
  initial 0, so they are kept as naturals.\<close>

definition tbl_set :: "'a list list \<Rightarrow> nat \<Rightarrow> nat \<Rightarrow> 'a \<Rightarrow> 'a list list" where
  "tbl_set t i j v = t[i := (t ! i)[j := v]]"

text \<open>The candidate cost of splitting the window \<open>[i, j]\<close> after position \<open>k\<close>.\<close>

definition split_cost :: "Matrix list \<Rightarrow> cint list list \<Rightarrow> nat \<Rightarrow> nat \<Rightarrow> nat \<Rightarrow> cint" where
  "split_cost mats min_cost i j k =
     min_cost ! i ! k + min_cost ! (k + 1) ! j +
     m_nrow (mats ! i) * m_ncol (mats ! k) * (2 * m_ncol (mats ! j) - 1)"

text \<open>The body of the innermost loop (over \<open>k\<close>).\<close>

definition try_split ::
  "Matrix list \<Rightarrow> nat \<Rightarrow> nat \<Rightarrow> nat \<Rightarrow> cint list list \<times> nat list list \<Rightarrow>
   cint list list \<times> nat list list" where
  "try_split mats i j k st =
     (case st of (min_cost, min_index) \<Rightarrow>
        let cost = split_cost mats min_cost i j k
        in if cost <s min_cost ! i ! j
           then (tbl_set min_cost i j cost, tbl_set min_index i j k)
           else (min_cost, min_index))"

text \<open>The body of the loop over \<open>i\<close>, for chains of size \<open>len\<close>.\<close>

definition fill_window ::
  "Matrix list \<Rightarrow> nat \<Rightarrow> nat \<Rightarrow> cint list list \<times> nat list list \<Rightarrow>
   cint list list \<times> nat list list" where
  "fill_window mats len i st =
     (case st of (min_cost, min_index) \<Rightarrow>
        let j = i + len - 1
        in fold (try_split mats i j) [i..<j] (tbl_set min_cost i j INT_MAX, min_index))"

text \<open>The body of the outermost loop (over \<open>length\<close>).\<close>

definition fill_length ::
  "Matrix list \<Rightarrow> nat \<Rightarrow> cint list list \<times> nat list list \<Rightarrow>
   cint list list \<times> nat list list" where
  "fill_length mats len st = fold (fill_window mats len) [0..<length mats - len + 1] st"

definition fill_tables :: "Matrix list \<Rightarrow> cint list list \<times> nat list list" where
  "fill_tables mats =
     (let n = length mats
      in fold (fill_length mats) [2..<n + 1] (replicate n (replicate n 0), replicate n (replicate n 0)))"

text \<open>
  \<open>order_to_string\<close> recurses on what it reads in the table, so it returns only if the
  table lets it: \<open>None\<close> is a call that does not return (or reads outside the vectors).
  The positions \<open>i\<close> and \<open>j\<close> stay below the size of the chain, so they are naturals.
  (The other variant of the file has no synthesized labels and renders the operator as
  \<open>x\<close>.)
\<close>

partial_function (option) order_to_string ::
  "nat list list \<Rightarrow> nat \<Rightarrow> nat \<Rightarrow> string list \<Rightarrow> string option" where
  "order_to_string min_index i j mat_names =
     (if i = j
      then (if mat_names \<noteq> []
            then (if i < length mat_names then Some (mat_names ! i) else None)
            else Some (''M'' @ to_string (int i + 1)))
      else if i < length min_index \<and> j < length (min_index ! i)
      then Option.bind (order_to_string min_index i (min_index ! i ! j) mat_names) (\<lambda>l.
           Option.bind (order_to_string min_index (min_index ! i ! j + 1) j mat_names) (\<lambda>r.
             Some (''('' @ l @ '' * '' @ r @ '')'')))
      else None)"

declare order_to_string.simps [code]

text \<open>
  The optimizer: \<open>Some (Inl e)\<close> is a throw or a failed assertion (which aborts the
  program), \<open>Some (Inr (order, flops))\<close> the returned pair, \<open>None\<close> a call that does not
  return.
\<close>

definition calc_optimal_mult_order ::
  "Matrix list \<Rightarrow> string list \<Rightarrow> (failure + string \<times> cint) option" where
  "calc_optimal_mult_order mats mat_names =
     (if mat_names \<noteq> [] \<and> length mat_names \<noteq> length mats
      then Some (Inl (logic_error ''wrong input sizes''))
      else if mats = [] then Some (Inr ('''', 0))
      else if \<not> for_each_adjacent_pair dims_compatible mats
      then Some (Inl assertion_failed)
      else (case fill_tables mats of (min_cost, min_index) \<Rightarrow>
              (case order_to_string min_index 0 (length mats - 1) mat_names of
                 None \<Rightarrow> None
               | Some opt_order \<Rightarrow> Some (Inr (opt_order, min_cost ! 0 ! (length mats - 1))))))"

section \<open>Parenthesizations of a chain\<close>

text \<open>
  A grouping is a binary tree over chain positions: \<open>Mat i\<close> is the matrix at position
  \<open>i\<close>, \<open>Mult l r\<close> the product of two groupings. It is a full parenthesization of the
  window \<open>[i, j]\<close> when its positions, read left to right, are \<open>i, i + 1, ..., j\<close>.
\<close>

datatype grouping = Mat nat | Mult grouping grouping

fun positions :: "grouping \<Rightarrow> nat list" where
  "positions (Mat i) = [i]"
| "positions (Mult l r) = positions l @ positions r"

fun first_pos :: "grouping \<Rightarrow> nat" where
  "first_pos (Mat i) = i"
| "first_pos (Mult l r) = first_pos l"

fun last_pos :: "grouping \<Rightarrow> nat" where
  "last_pos (Mat i) = i"
| "last_pos (Mult l r) = last_pos r"

text \<open>The label of a position: its supplied name, or \<open>M\<close> and the 1-based position.\<close>

definition label :: "string list \<Rightarrow> nat \<Rightarrow> string" where
  "label mat_names i =
     (if mat_names \<noteq> [] then mat_names ! i else ''M'' @ to_string (int i + 1))"

text \<open>A fully parenthesized expression with the token \<open>*\<close> between the operands.\<close>

fun show_grouping :: "string list \<Rightarrow> grouping \<Rightarrow> string" where
  "show_grouping mat_names (Mat i) = label mat_names i"
| "show_grouping mat_names (Mult l r) =
     ''('' @ show_grouping mat_names l @ '' * '' @ show_grouping mat_names r @ '')''"

text \<open>Evaluating a grouping with \<open>operator*\<close> on freshly constructed matrices of the
  chain's shapes.\<close>

fun eval_grouping :: "Matrix list \<Rightarrow> grouping \<Rightarrow> failure + Matrix" where
  "eval_grouping mats (Mat i) = Inr (new_Matrix (m_nrow (mats ! i)) (m_ncol (mats ! i)))"
| "eval_grouping mats (Mult l r) =
     (case eval_grouping mats l of
        Inl e \<Rightarrow> Inl e
      | Inr a \<Rightarrow> (case eval_grouping mats r of
                    Inl e \<Rightarrow> Inl e
                  | Inr b \<Rightarrow> operator_times a b))"

text \<open>
  The total multiplication flops of a grouping as an unbounded integer: multiplying an
  \<open>(r1, c1)\<close> result by a \<open>(c1, c2)\<close> result costs \<open>r1 * c1 * (2 * c2 - 1)\<close>.
\<close>

fun exact_cost :: "Matrix list \<Rightarrow> grouping \<Rightarrow> int" where
  "exact_cost mats (Mat i) = 0"
| "exact_cost mats (Mult l r) =
     exact_cost mats l + exact_cost mats r +
     sint (m_nrow (mats ! first_pos l)) * sint (m_ncol (mats ! last_pos l)) *
       (2 * sint (m_ncol (mats ! last_pos r)) - 1)"

section \<open>Notions used to state and prove the properties\<close>

subsection \<open>Costs as unbounded integers\<close>

text \<open>
  The candidate cost of a split computed without wrap-around, from the signed values of
  the table entries and of the dimensions.
\<close>

definition exact_split_cost :: "Matrix list \<Rightarrow> cint list list \<Rightarrow> nat \<Rightarrow> nat \<Rightarrow> nat \<Rightarrow> int" where
  "exact_split_cost mats min_cost i j k =
     sint (min_cost ! i ! k) + sint (min_cost ! (k + 1) ! j) +
     sint (m_nrow (mats ! i)) * sint (m_ncol (mats ! k)) * (2 * sint (m_ncol (mats ! j)) - 1)"

text \<open>
  A chain is free of overflow when the exact cost of every candidate split that the loops
  consider lies in the range of \<open>int\<close>, below \<open>INT_MAX\<close>.
\<close>

definition no_overflow :: "Matrix list \<Rightarrow> bool" where
  "no_overflow mats =
     (case fill_tables mats of (min_cost, min_index) \<Rightarrow>
        \<forall>j\<in>{0..<length mats}. \<forall>i\<in>{0..<j}. \<forall>k\<in>{i..<j}.
          - 2147483648 \<le> exact_split_cost mats min_cost i j k \<and>
          exact_split_cost mats min_cost i j k < 2147483647)"

text \<open>
  A simple sufficient condition (see \<open>bounded_no_overflow\<close>): rows between 0 and \<open>d\<close> and
  columns between 1 and \<open>d\<close>.
\<close>

definition bounded_dims :: "int \<Rightarrow> Matrix list \<Rightarrow> bool" where
  "bounded_dims d mats =
     (\<forall>m\<in>set mats. 0 \<le> sint (m_nrow m) \<and> sint (m_nrow m) \<le> d \<and>
        1 \<le> sint (m_ncol m) \<and> sint (m_ncol m) \<le> d)"

text \<open>
  Every window \<open>[i, j]\<close> with \<open>i < j\<close> has a split whose computed cost is below the value
  \<open>INT_MAX\<close> that \<open>min_cost[i][j]\<close> starts from, so that a split gets recorded for it.
\<close>

definition splits_recorded :: "Matrix list \<Rightarrow> bool" where
  "splits_recorded mats =
     (case fill_tables mats of (min_cost, min_index) \<Rightarrow>
        \<forall>j\<in>{0..<length mats}. \<forall>i\<in>{0..<j}. \<exists>k\<in>{i..<j}.
          split_cost mats min_cost i j k <s INT_MAX)"

subsection \<open>The scan of one window\<close>

text \<open>
  What one pass of the innermost loop does to the pair \<open>(min_cost[i][j],
  min_index[i][j])\<close>, given the candidate cost of each split.
\<close>

definition pick :: "(nat \<Rightarrow> cint) \<Rightarrow> nat \<Rightarrow> cint \<times> nat \<Rightarrow> cint \<times> nat" where
  "pick cand k cm = (if cand k <s fst cm then (cand k, k) else cm)"

text \<open>
  The outcome \<open>res\<close> of scanning the splits \<open>i, ..., j - 1\<close> from the pair \<open>start\<close>: the
  cost is a lower bound of the start and of all candidates; if some candidate is below
  the start, the index is the first split of least cost; otherwise nothing changed.
\<close>

definition picked :: "(nat \<Rightarrow> cint) \<Rightarrow> nat \<Rightarrow> nat \<Rightarrow> cint \<times> nat \<Rightarrow> cint \<times> nat \<Rightarrow> bool" where
  "picked cand i j start res =
     (fst res \<le>s fst start \<and> (\<forall>k. i \<le> k \<and> k < j \<longrightarrow> fst res \<le>s cand k) \<and>
      ((\<exists>k. i \<le> k \<and> k < j \<and> cand k <s fst start) \<longrightarrow>
         i \<le> snd res \<and> snd res < j \<and> fst res = cand (snd res) \<and>
         (\<forall>k. i \<le> k \<and> k < snd res \<longrightarrow> fst res <s cand k)) \<and>
      ((\<forall>k. i \<le> k \<and> k < j \<longrightarrow> \<not> cand k <s fst start) \<longrightarrow> res = start))"

subsection \<open>The invariant of the loops\<close>

text \<open>An \<open>n \<times> n\<close> table.\<close>

definition wf_tbl :: "nat \<Rightarrow> 'a list list \<Rightarrow> bool" where
  "wf_tbl n t = (length t = n \<and> (\<forall>a<n. length (t ! a) = n))"

text \<open>Two tables that agree everywhere except, possibly, at \<open>[i][j]\<close>.\<close>

definition agree_off :: "nat \<Rightarrow> nat \<Rightarrow> 'a list list \<Rightarrow> 'a list list \<Rightarrow> bool" where
  "agree_off i j t t' = (\<forall>a b. (a, b) \<noteq> (i, j) \<longrightarrow> t' ! a ! b = t ! a ! b)"

text \<open>The entries of the window \<open>[a, b]\<close> are the outcome of its scan, started from
  \<open>INT_MAX\<close> and the initial index 0, over the costs read in the same table.\<close>

definition window_ok ::
  "Matrix list \<Rightarrow> cint list list \<Rightarrow> nat list list \<Rightarrow> nat \<Rightarrow> nat \<Rightarrow> bool" where
  "window_ok mats mc mi a b =
     ((mc ! a ! b, mi ! a ! b) = fold (pick (split_cost mats mc a b)) [a..<b] (INT_MAX, 0))"

text \<open>The windows already filled when the loops reach chain size \<open>len\<close> and start \<open>i\<close>.\<close>

definition processed :: "nat \<Rightarrow> nat \<Rightarrow> nat \<Rightarrow> nat \<Rightarrow> bool" where
  "processed len i a b = (a < b \<and> (b - a + 1 < len \<or> (b - a + 1 = len \<and> a < i)))"

text \<open>Filled windows hold the outcome of their scan; every other entry is still 0.\<close>

definition tables_inv ::
  "Matrix list \<Rightarrow> nat \<Rightarrow> nat \<Rightarrow> cint list list \<times> nat list list \<Rightarrow> bool" where
  "tables_inv mats len i st =
     (case st of (mc, mi) \<Rightarrow>
        wf_tbl (length mats) mc \<and> wf_tbl (length mats) mi \<and>
        (\<forall>a b. a < length mats \<and> b < length mats \<longrightarrow>
           (if processed len i a b then window_ok mats mc mi a b
            else mc ! a ! b = 0 \<and> mi ! a ! b = 0)))"

subsection \<open>Concrete chains\<close>

text \<open>The chain of \<open>run_time_checks\<close> and the chain printed by \<open>main\<close>.\<close>

definition ABCD :: "Matrix list" where
  "ABCD = [new_Matrix 40 20, new_Matrix 20 30, new_Matrix 30 10, new_Matrix 10 30]"

definition ABC :: "Matrix list" where
  "ABC = [new_Matrix 2 5, new_Matrix 5 3, new_Matrix 3 10]"

text \<open>Chains with a dimension of \<open>INT_MAX\<close>.\<close>

definition big_pair :: "Matrix list" where
  "big_pair = [new_Matrix 2147483647 1, new_Matrix 1 2]"

definition hard_chain :: "Matrix list" where
  "hard_chain = [new_Matrix 1 1, new_Matrix 1 2147483647, new_Matrix 2147483647 1]"

definition flat_chain :: "Matrix list" where
  "flat_chain = [new_Matrix 0 2147483647, new_Matrix 2147483647 1, new_Matrix 1 1]"

section \<open>Machine integers against unbounded integers\<close>

lemma sint_exact:
  "- 2147483648 \<le> x \<Longrightarrow> x \<le> 2147483647 \<Longrightarrow> sint (word_of_int x :: cint) = x"
  by (simp add: sint_sbintrunc' signed_take_bit_int_eq_self)

lemma sint_range: "- 2147483648 \<le> sint (a :: cint) \<and> sint a \<le> 2147483647"
  using sint_ge [of a] sint_lt [of a] by simp

lemma sint_sum3:
  fixes a b :: cint
  assumes "- 2147483648 \<le> sint a + sint b + x" "sint a + sint b + x \<le> 2147483647"
  shows "sint (a + b + word_of_int x) = sint a + sint b + x"
proof -
  have "a + b + word_of_int x = (word_of_int (sint a + sint b + x) :: cint)"
    by simp
  then show ?thesis using assms by (simp only: sint_exact)
qed

lemma mult_term_exact:
  fixes r c d :: cint
  shows "r * c * (2 * d - 1) = word_of_int (sint r * sint c * (2 * sint d - 1))"
  by simp

section \<open>The loops fill the tables\<close>

lemma tbl_set_nth:
  "i < length t \<Longrightarrow> j < length (t ! i) \<Longrightarrow>
   tbl_set t i j v ! a ! b = (if a = i \<and> b = j then v else t ! a ! b)"
  by (cases "a = i") (auto simp: tbl_set_def nth_list_update)

lemma wf_tbl_set: "wf_tbl n t \<Longrightarrow> wf_tbl n (tbl_set t i j v)"
  by (cases "i < length t") (auto simp: wf_tbl_def tbl_set_def nth_list_update)

lemma wf_tbl_replicate: "wf_tbl n (replicate n (replicate n x))"
  by (simp add: wf_tbl_def)

lemma wf_tbl_set_nth:
  "wf_tbl n t \<Longrightarrow> i < n \<Longrightarrow> j < n \<Longrightarrow>
   tbl_set t i j v ! a ! b = (if a = i \<and> b = j then v else t ! a ! b)"
  by (rule tbl_set_nth) (auto simp: wf_tbl_def)

lemma fold_pick_cong:
  "(\<And>k. k \<in> set ks \<Longrightarrow> f k = g k) \<Longrightarrow> fold (pick f) ks cm = fold (pick g) ks cm"
  by (induction ks arbitrary: cm) (auto simp: pick_def)

lemma picked_step:
  assumes "picked cand i j start res" "i \<le> j"
  shows "picked cand i (Suc j) start (pick cand j res)"
proof -
  obtain c m where res: "res = (c, m)" by (cases res)
  obtain c0 m0 where start: "start = (c0, m0)" by (cases start)
  have A: "sint c \<le> sint c0"
    and B: "\<And>k. i \<le> k \<Longrightarrow> k < j \<Longrightarrow> sint c \<le> sint (cand k)"
    and C: "\<And>k. i \<le> k \<Longrightarrow> k < j \<Longrightarrow> sint (cand k) < sint c0 \<Longrightarrow>
        i \<le> m \<and> m < j \<and> c = cand m \<and> (\<forall>k'. i \<le> k' \<and> k' < m \<longrightarrow> sint c < sint (cand k'))"
    and D: "(\<forall>k. i \<le> k \<and> k < j \<longrightarrow> \<not> sint (cand k) < sint c0) \<Longrightarrow> c = c0 \<and> m = m0"
    using assms(1) unfolding picked_def res start word_sle_eq word_sless_alt by auto
  show ?thesis
  proof (cases "sint (cand j) < sint c")
    case True
    then have p: "pick cand j res = (cand j, j)"
      by (simp add: pick_def res word_sless_alt)
    show ?thesis
      unfolding p picked_def start word_sle_eq word_sless_alt
      using True A B assms(2) by (fastforce simp: less_Suc_eq)
  next
    case False
    then have p: "pick cand j res = (c, m)"
      by (simp add: pick_def res word_sless_alt)
    have E: "\<And>k. i \<le> k \<Longrightarrow> k < Suc j \<Longrightarrow> sint c \<le> sint (cand k)"
      using B False by (auto simp: less_Suc_eq)
    have F: "i \<le> m \<and> m < j \<and> c = cand m \<and> (\<forall>k'. i \<le> k' \<and> k' < m \<longrightarrow> sint c < sint (cand k'))"
      if "i \<le> k" "k < Suc j" "sint (cand k) < sint c0" for k
    proof (cases "k < j")
      case True
      then show ?thesis using C that by blast
    next
      case False
      with that have kj: "k = j" by simp
      show ?thesis
      proof (cases "\<forall>k. i \<le> k \<and> k < j \<longrightarrow> \<not> sint (cand k) < sint c0")
        case True
        from D [OF True] have "c = c0" by simp
        with that kj \<open>\<not> sint (cand j) < sint c\<close> show ?thesis by simp
      next
        case False
        then show ?thesis using C by blast
      qed
    qed
    have G: "c = c0 \<and> m = m0" if "\<forall>k. i \<le> k \<and> k < Suc j \<longrightarrow> \<not> sint (cand k) < sint c0"
      using D that by (simp add: less_Suc_eq)
    show ?thesis
      unfolding p picked_def start word_sle_eq word_sless_alt fst_conv snd_conv
    proof (intro conjI allI impI)
      show "sint c \<le> sint c0" by (rule A)
    next
      fix k assume "i \<le> k \<and> k < Suc j"
      then show "sint c \<le> sint (cand k)" using E by blast
    next
      assume ex: "\<exists>k. i \<le> k \<and> k < Suc j \<and> sint (cand k) < sint c0"
      then obtain k where k: "i \<le> k" "k < Suc j" "sint (cand k) < sint c0" by blast
      from F [OF k] show "i \<le> m" "m < Suc j" "c = cand m" by simp_all
      fix k' assume "i \<le> k' \<and> k' < m"
      with F [OF k] show "sint c < sint (cand k')" by blast
    next
      assume "\<forall>k. i \<le> k \<and> k < Suc j \<longrightarrow> \<not> sint (cand k) < sint c0"
      from G [OF this] show "(c, m) = (c0, m0)" by simp
    qed
  qed
qed

lemma fold_pick_picked:
  "i \<le> j \<Longrightarrow> picked cand i j start (fold (pick cand) [i..<j] start)"
proof (induction j)
  case 0
  then show ?case by (auto simp: picked_def word_sle_eq)
next
  case (Suc j)
  show ?case
  proof (cases "i = Suc j")
    case True
    then show ?thesis by (auto simp: picked_def word_sle_eq)
  next
    case False
    with Suc.prems have ij: "i \<le> j" by simp
    then show ?thesis
      using picked_step [OF Suc.IH [OF ij] ij] by simp
  qed
qed

lemma split_cost_cong:
  "mc' ! i ! k = mc ! i ! k \<Longrightarrow> mc' ! (k + 1) ! j = mc ! (k + 1) ! j \<Longrightarrow>
   split_cost mats mc' i j k = split_cost mats mc i j k"
  by (simp add: split_cost_def)

lemma agree_off_refl: "agree_off i j t t"
  by (simp add: agree_off_def)

lemma agree_off_trans: "agree_off i j t t' \<Longrightarrow> agree_off i j t' t'' \<Longrightarrow> agree_off i j t t''"
  by (simp add: agree_off_def)

lemma agree_off_tbl_set:
  "wf_tbl n t \<Longrightarrow> i < n \<Longrightarrow> j < n \<Longrightarrow> agree_off i j t (tbl_set t i j v)"
  by (auto simp: agree_off_def wf_tbl_set_nth)

lemma agree_off_split_cost:
  "agree_off i j mc mc' \<Longrightarrow> i \<le> k \<Longrightarrow> k < j \<Longrightarrow>
   split_cost mats mc' i j k = split_cost mats mc i j k"
  by (rule split_cost_cong) (auto simp: agree_off_def)

lemma try_split_step:
  assumes "wf_tbl n mc" "wf_tbl n mi" "i < n" "j < n"
  shows "\<exists>mc1 mi1. try_split mats i j k (mc, mi) = (mc1, mi1) \<and> wf_tbl n mc1 \<and> wf_tbl n mi1 \<and>
     agree_off i j mc mc1 \<and> agree_off i j mi mi1 \<and>
     (mc1 ! i ! j, mi1 ! i ! j) = pick (split_cost mats mc i j) k (mc ! i ! j, mi ! i ! j)"
  using assms
  by (auto simp: try_split_def Let_def pick_def wf_tbl_set agree_off_tbl_set agree_off_refl
      wf_tbl_set_nth)

lemma fold_try_split:
  assumes "wf_tbl n mc" "wf_tbl n mi" "i < n" "j < n" "\<forall>k\<in>set ks. i \<le> k \<and> k < j"
  shows "\<exists>mc' mi'. fold (try_split mats i j) ks (mc, mi) = (mc', mi') \<and>
     wf_tbl n mc' \<and> wf_tbl n mi' \<and> agree_off i j mc mc' \<and> agree_off i j mi mi' \<and>
     (mc' ! i ! j, mi' ! i ! j) = fold (pick (split_cost mats mc i j)) ks (mc ! i ! j, mi ! i ! j)"
  using assms
proof (induction ks arbitrary: mc mi)
  case Nil
  then show ?case by (simp add: agree_off_refl)
next
  case (Cons k ks)
  from try_split_step [OF Cons.prems(1-4), of mats k] obtain mc1 mi1 where
    s: "try_split mats i j k (mc, mi) = (mc1, mi1)"
    and wf1: "wf_tbl n mc1" "wf_tbl n mi1"
    and ag1: "agree_off i j mc mc1" "agree_off i j mi mi1"
    and v1: "(mc1 ! i ! j, mi1 ! i ! j) = pick (split_cost mats mc i j) k (mc ! i ! j, mi ! i ! j)"
    by blast
  have ks: "\<forall>k\<in>set ks. i \<le> k \<and> k < j"
    using Cons.prems(5) by simp
  from Cons.IH [OF wf1 Cons.prems(3,4) ks] obtain mc' mi' where
    f: "fold (try_split mats i j) ks (mc1, mi1) = (mc', mi')"
    and wf': "wf_tbl n mc'" "wf_tbl n mi'"
    and ag': "agree_off i j mc1 mc'" "agree_off i j mi1 mi'"
    and v': "(mc' ! i ! j, mi' ! i ! j)
       = fold (pick (split_cost mats mc1 i j)) ks (mc1 ! i ! j, mi1 ! i ! j)"
    by blast
  have "fold (pick (split_cost mats mc1 i j)) ks (mc1 ! i ! j, mi1 ! i ! j)
      = fold (pick (split_cost mats mc i j)) ks (mc1 ! i ! j, mi1 ! i ! j)"
    by (rule fold_pick_cong) (use ks ag1 in \<open>auto intro: agree_off_split_cost\<close>)
  with v' v1 have "(mc' ! i ! j, mi' ! i ! j)
      = fold (pick (split_cost mats mc i j)) (k # ks) (mc ! i ! j, mi ! i ! j)"
    by simp
  moreover have "fold (try_split mats i j) (k # ks) (mc, mi) = (mc', mi')"
    using s f by simp
  ultimately show ?case
    using wf' ag1 ag' by (blast intro: agree_off_trans)
qed

lemma window_ok_cong:
  assumes "window_ok mats mc mi a b"
    and "mc' ! a ! b = mc ! a ! b" "mi' ! a ! b = mi ! a ! b"
    and "\<And>k. a \<le> k \<Longrightarrow> k < b \<Longrightarrow> mc' ! a ! k = mc ! a ! k \<and> mc' ! (k + 1) ! b = mc ! (k + 1) ! b"
  shows "window_ok mats mc' mi' a b"
proof -
  have "fold (pick (split_cost mats mc' a b)) [a..<b] (INT_MAX, 0)
      = fold (pick (split_cost mats mc a b)) [a..<b] (INT_MAX, 0)"
    by (rule fold_pick_cong) (use assms(4) in \<open>auto intro: split_cost_cong\<close>)
  with assms(1-3) show ?thesis
    by (simp add: window_ok_def)
qed

lemma fill_window_inv:
  assumes inv: "tables_inv mats len i st" and len: "2 \<le> len" and j: "i + len - 1 < length mats"
  shows "tables_inv mats len (Suc i) (fill_window mats len i st)"
proof -
  define n where "n = length mats"
  define j where "j = i + len - 1"
  obtain mc mi where st: "st = (mc, mi)" by (cases st)
  have ij: "i < j" "j < n" "i < n" "j - i + 1 = len"
    using len assms(3) by (auto simp: j_def n_def)
  have wf: "wf_tbl n mc" "wf_tbl n mi"
    and ent: "\<And>a b. a < n \<Longrightarrow> b < n \<Longrightarrow>
        (if processed len i a b then window_ok mats mc mi a b else mc ! a ! b = 0 \<and> mi ! a ! b = 0)"
    using inv unfolding tables_inv_def st n_def by auto
  have np: "\<not> processed len i i j"
    using ij by (simp add: processed_def)
  define mc0 where "mc0 = tbl_set mc i j INT_MAX"
  have wf0: "wf_tbl n mc0"
    unfolding mc0_def by (rule wf_tbl_set [OF wf(1)])
  have ag0: "agree_off i j mc mc0"
    unfolding mc0_def by (rule agree_off_tbl_set [OF wf(1) ij(3) ij(2)])
  have v0: "mc0 ! i ! j = INT_MAX"
    unfolding mc0_def using wf(1) ij by (simp add: wf_tbl_set_nth)
  have mi0: "mi ! i ! j = 0"
    using ent [OF ij(3) ij(2)] np by simp
  from fold_try_split [OF wf0 wf(2) ij(3) ij(2), of "[i..<j]" mats] obtain mc' mi' where
    f: "fold (try_split mats i j) [i..<j] (mc0, mi) = (mc', mi')"
    and wf': "wf_tbl n mc'" "wf_tbl n mi'"
    and ag': "agree_off i j mc0 mc'" "agree_off i j mi mi'"
    and v': "(mc' ! i ! j, mi' ! i ! j)
       = fold (pick (split_cost mats mc0 i j)) [i..<j] (mc0 ! i ! j, mi ! i ! j)"
    by auto
  have res: "fill_window mats len i st = (mc', mi')"
    using f by (simp add: fill_window_def st Let_def j_def mc0_def)
  have agc: "agree_off i j mc mc'"
    using ag0 ag'(1) by (rule agree_off_trans)
  have same: "mc' ! a ! b = mc ! a ! b \<and> mi' ! a ! b = mi ! a ! b" if "(a, b) \<noteq> (i, j)" for a b
    using agc ag'(2) that unfolding agree_off_def by blast
  have new: "window_ok mats mc' mi' i j"
  proof -
    have "fold (pick (split_cost mats mc' i j)) [i..<j] (INT_MAX, 0)
        = fold (pick (split_cost mats mc0 i j)) [i..<j] (INT_MAX, 0)"
      by (rule fold_pick_cong) (use ag'(1) in \<open>auto intro: agree_off_split_cost\<close>)
    with v' v0 mi0 show ?thesis
      by (simp add: window_ok_def)
  qed
  have old: "window_ok mats mc' mi' a b" if p: "processed len i a b" and ab: "a < n" "b < n" for a b
  proof -
    have ok: "window_ok mats mc mi a b"
      using ent [OF ab] p by simp
    have lenab: "a < b" "b - a + 1 \<le> len" "b - a + 1 = len \<longrightarrow> a < i"
      using p by (auto simp: processed_def)
    show ?thesis
    proof (rule window_ok_cong [OF ok])
      show "mc' ! a ! b = mc ! a ! b" "mi' ! a ! b = mi ! a ! b"
        using same [of a b] lenab ij by auto
    next
      fix k assume k: "a \<le> k" "k < b"
      have "(a, k) \<noteq> (i, j)" using lenab ij k by auto
      moreover have "(k + 1, b) \<noteq> (i, j)" using lenab ij k by auto
      ultimately show "mc' ! a ! k = mc ! a ! k \<and> mc' ! (k + 1) ! b = mc ! (k + 1) ! b"
        using same by blast
    qed
  qed
  have split: "processed len (Suc i) a b \<longleftrightarrow> processed len i a b \<or> (a, b) = (i, j)" for a b
    using ij by (auto simp: processed_def)
  have "(if processed len (Suc i) a b then window_ok mats mc' mi' a b
         else mc' ! a ! b = 0 \<and> mi' ! a ! b = 0)" if ab: "a < n" "b < n" for a b
  proof (cases "processed len (Suc i) a b")
    case True
    then show ?thesis using split [of a b] old [OF _ ab] new by auto
  next
    case False
    then have "\<not> processed len i a b" "(a, b) \<noteq> (i, j)"
      using split [of a b] by auto
    then show ?thesis
      using False ent [OF ab] same [of a b] by simp
  qed
  then show ?thesis
    unfolding res tables_inv_def using wf' by (auto simp: n_def)
qed

lemma fold_upt_invariant:
  assumes "P a s" and "\<And>k s. a \<le> k \<Longrightarrow> k < b \<Longrightarrow> P k s \<Longrightarrow> P (Suc k) (f k s)" and "a \<le> b"
  shows "P b (fold f [a..<b] s)"
  using assms(3,2)
proof (induction b)
  case 0
  then show ?case using assms(1) by simp
next
  case (Suc b)
  show ?case
  proof (cases "a = Suc b")
    case True
    then show ?thesis using assms(1) by simp
  next
    case False
    with Suc.prems have ab: "a \<le> b" by simp
    have "P b (fold f [a..<b] s)"
      using Suc.IH [OF ab] Suc.prems(2) by simp
    then show ?thesis
      using ab Suc.prems(2) [of b] by simp
  qed
qed

lemma fill_length_inv:
  assumes inv: "tables_inv mats len 0 st" and len: "2 \<le> len" "len \<le> length mats"
  shows "tables_inv mats (Suc len) 0 (fill_length mats len st)"
proof -
  have "tables_inv mats len (length mats - len + 1)
      (fold (fill_window mats len) [0..<length mats - len + 1] st)"
  proof (rule fold_upt_invariant [where P = "tables_inv mats len"])
    show "tables_inv mats len 0 st" by (rule inv)
  next
    fix k s
    assume "k < length mats - len + 1" "tables_inv mats len k s"
    then show "tables_inv mats len (Suc k) (fill_window mats len k s)"
      using len by (intro fill_window_inv) auto
  qed simp
  moreover have "processed (Suc len) 0 a b \<longleftrightarrow> processed len (length mats - len + 1) a b"
    if "a < length mats" "b < length mats" for a b
    using that len by (auto simp: processed_def)
  ultimately show ?thesis
    unfolding fill_length_def tables_inv_def by (auto split: prod.splits)
qed

lemma fill_tables_inv:
  assumes "mats \<noteq> []"
  shows "tables_inv mats (Suc (length mats)) 0 (fill_tables mats)"
proof -
  define n where "n = length mats"
  have n: "1 \<le> n" using assms by (cases mats) (auto simp: n_def)
  have init: "tables_inv mats 2 0 (replicate n (replicate n 0), replicate n (replicate n 0))"
    by (auto simp: tables_inv_def wf_tbl_replicate n_def processed_def)
  have "tables_inv mats (n + 1) 0
      (fold (fill_length mats) [2..<n + 1] (replicate n (replicate n 0), replicate n (replicate n 0)))"
  proof (rule fold_upt_invariant [where P = "\<lambda>len. tables_inv mats len 0"])
    show "tables_inv mats 2 0 (replicate n (replicate n 0), replicate n (replicate n 0))"
      by (rule init)
  next
    fix k s
    assume "2 \<le> k" "k < n + 1" "tables_inv mats k 0 s"
    then show "tables_inv mats (Suc k) 0 (fill_length mats k s)"
      by (intro fill_length_inv) (auto simp: n_def)
  next
    show "2 \<le> n + 1" using n by simp
  qed
  then show ?thesis
    by (simp add: fill_tables_def Let_def n_def)
qed

lemma fill_tables_result:
  assumes "mats \<noteq> []" "fill_tables mats = (mc, mi)"
  shows "wf_tbl (length mats) mc" "wf_tbl (length mats) mi"
    and "\<And>a b. a < b \<Longrightarrow> b < length mats \<Longrightarrow> window_ok mats mc mi a b"
    and "\<And>a. a < length mats \<Longrightarrow> mc ! a ! a = 0"
    and "\<And>a b. a < length mats \<Longrightarrow> b \<le> a \<Longrightarrow> mi ! a ! b = 0"
proof -
  have inv: "tables_inv mats (Suc (length mats)) 0 (mc, mi)"
    using fill_tables_inv [OF assms(1)] assms(2) by simp
  show "wf_tbl (length mats) mc" "wf_tbl (length mats) mi"
    using inv by (simp_all add: tables_inv_def)
  show "window_ok mats mc mi a b" if "a < b" "b < length mats" for a b
  proof -
    have "processed (Suc (length mats)) 0 a b"
      using that by (auto simp: processed_def)
    then show ?thesis
      using inv that unfolding tables_inv_def by auto
  qed
  show "mc ! a ! a = 0" if "a < length mats" for a
  proof -
    have "\<not> processed (Suc (length mats)) 0 a a"
      by (simp add: processed_def)
    then show ?thesis
      using inv that unfolding tables_inv_def by auto
  qed
  show "mi ! a ! b = 0" if "a < length mats" "b \<le> a" for a b
  proof -
    have "\<not> processed (Suc (length mats)) 0 a b" "b < length mats"
      using that by (simp_all add: processed_def)
    then show ?thesis
      using inv that unfolding tables_inv_def by auto
  qed
qed

lemma window_picked:
  assumes "mats \<noteq> []" "fill_tables mats = (mc, mi)" "a < b" "b < length mats"
  shows "picked (split_cost mats mc a b) a b (INT_MAX, 0) (mc ! a ! b, mi ! a ! b)"
proof -
  have "window_ok mats mc mi a b"
    using fill_tables_result(3) [OF assms(1,2)] assms(3,4) by blast
  then show ?thesis
    using fold_pick_picked [of a b "split_cost mats mc a b" "(INT_MAX, 0)"] assms(3)
    by (simp add: window_ok_def)
qed

lemma recorded_split:
  assumes "mats \<noteq> []" "fill_tables mats = (mc, mi)" "a < b" "b < length mats"
    and "\<exists>k. a \<le> k \<and> k < b \<and> split_cost mats mc a b k <s INT_MAX"
  shows "a \<le> mi ! a ! b" "mi ! a ! b < b" "mc ! a ! b = split_cost mats mc a b (mi ! a ! b)"
    and "\<And>k. a \<le> k \<Longrightarrow> k < b \<Longrightarrow> mc ! a ! b \<le>s split_cost mats mc a b k"
    and "\<And>k. a \<le> k \<Longrightarrow> k < mi ! a ! b \<Longrightarrow> mc ! a ! b <s split_cost mats mc a b k"
  using window_picked [OF assms(1-4)] assms(5) unfolding picked_def by auto

lemma fill_tables_ABCD:
  "fill_tables ABCD =
    ([[0, 47200, 26600, 50200], [0, 0, 11400, 23200], [0, 0, 0, 17700], [0, 0, 0, 0]],
     [[0, 0, 0, 2], [0, 0, 1, 2], [0, 0, 0, 2], [0, 0, 0, 0]])"
  by code_simp

lemma decimal_1: "decimal (Suc 0) = ''1''"
  by (simp add: decimal.simps [of "Suc 0"] digit_char_def)

text \<open>With an empty chain, names can only be rejected: the size check comes first.\<close>

lemma empty_chain_names_rejected:
  "mat_names \<noteq> [] \<Longrightarrow>
   calc_optimal_mult_order [] mat_names = Some (Inl (logic_error ''wrong input sizes''))"
  by (simp add: calc_optimal_mult_order_def)

section \<open>Groupings of a window\<close>

lemma upt_append_upt: "a \<le> k \<Longrightarrow> k \<le> b \<Longrightarrow> [a..<k] @ [k..<b] = [a..<b]"
  by (metis le_Suc_ex upt_add_eq_append)

lemma adjacent_nth:
  "for_each_adjacent_pair dims_compatible mats \<Longrightarrow> Suc k < length mats \<Longrightarrow>
   m_ncol (mats ! k) = m_nrow (mats ! Suc k)"
proof (induction dims_compatible mats arbitrary: k rule: for_each_adjacent_pair.induct)
  case (3 x y zs)
  then show ?case by (cases k) (auto simp: dims_compatible_def)
qed simp_all

lemma positions_ne: "positions g \<noteq> []"
  by (induction g) auto

lemma hd_positions: "hd (positions g) = first_pos g"
  by (induction g) (auto simp: positions_ne)

lemma last_positions: "last (positions g) = last_pos g"
  by (induction g) (auto simp: positions_ne)

lemma window_ends:
  assumes "positions g = [a..<Suc b]"
  shows "a \<le> b" "first_pos g = a" "last_pos g = b"
proof -
  show ab: "a \<le> b"
    using positions_ne [of g] assms by (cases "a \<le> b") auto
  show "first_pos g = a"
    using hd_positions [of g] hd_upt [of a "Suc b"] ab unfolding assms by simp
  show "last_pos g = b"
    using last_positions [of g] last_upt [of a "Suc b"] ab unfolding assms by simp
qed

lemma positions_split:
  assumes "positions l @ positions r = [a..<Suc b]"
  shows "\<exists>k. a \<le> k \<and> k < b \<and> positions l = [a..<Suc k] \<and> positions r = [Suc k..<Suc b]"
proof -
  define n1 where "n1 = length (positions l)"
  define n2 where "n2 = length (positions r)"
  have pos: "0 < n1" "0 < n2"
    using positions_ne [of l] positions_ne [of r] by (simp_all add: n1_def n2_def)
  have len: "n1 + n2 = Suc b - a"
    using arg_cong [OF assms, of length] by (simp add: n1_def n2_def del: upt_Suc)
  have l: "positions l = take n1 [a..<Suc b]" and r: "positions r = drop n1 [a..<Suc b]"
    using assms by (simp_all add: append_eq_conv_conj n1_def)
  have "take n1 [a..<Suc b] = [a..<a + n1]"
    using len pos by (intro take_upt) simp
  moreover have "drop n1 [a..<Suc b] = [a + n1..<Suc b]"
    by (rule drop_upt)
  ultimately have "positions l = [a..<Suc (a + n1 - 1)]" "positions r = [Suc (a + n1 - 1)..<Suc b]"
    using l r pos by simp_all
  moreover have "a \<le> a + n1 - 1" "a + n1 - 1 < b"
    using pos len by simp_all
  ultimately show ?thesis by blast
qed

lemma single_window:
  assumes "[i] = [a..<Suc b]"
  shows "a = i \<and> b = i"
proof -
  have "length [a..<Suc b] = length [i]"
    by (rule arg_cong [OF assms [symmetric]])
  then have ab: "a = b"
    by (simp del: upt_Suc)
  have "[b..<Suc b] = [b]"
    by simp
  with assms ab have "[i] = [b]"
    by (simp only:)
  with ab show ?thesis
    by simp
qed

lemma eval_shape:
  assumes adj: "for_each_adjacent_pair dims_compatible mats"
  shows "positions g = [a..<Suc b] \<Longrightarrow> b < length mats \<Longrightarrow>
    \<exists>m. eval_grouping mats g = Inr m \<and> m_nrow m = m_nrow (mats ! a) \<and> m_ncol m = m_ncol (mats ! b)"
proof (induction g arbitrary: a b)
  case (Mat i)
  then have "[i] = [a..<Suc b]" by (simp only: positions.simps)
  then have "a = i \<and> b = i" by (rule single_window)
  then show ?case by (simp add: new_Matrix_def)
next
  case (Mult l r)
  have "positions l @ positions r = [a..<Suc b]"
    using Mult.prems(1) by (simp only: positions.simps)
  from positions_split [OF this] obtain k where k: "a \<le> k" "k < b"
    "positions l = [a..<Suc k]" "positions r = [Suc k..<Suc b]"
    by blast
  have kn: "k < length mats"
    using k(2) Mult.prems(2) by simp
  from Mult.IH(1) [OF k(3) kn] obtain ml where
    ml: "eval_grouping mats l = Inr ml" "m_nrow ml = m_nrow (mats ! a)" "m_ncol ml = m_ncol (mats ! k)"
    by blast
  from Mult.IH(2) [OF k(4) Mult.prems(2)] obtain mr where
    mr: "eval_grouping mats r = Inr mr" "m_nrow mr = m_nrow (mats ! Suc k)" "m_ncol mr = m_ncol (mats ! b)"
    by blast
  have "m_ncol (mats ! k) = m_nrow (mats ! Suc k)"
    using adjacent_nth [OF adj, of k] k Mult.prems(2) by simp
  then show ?case
    using ml mr by (simp add: operator_times_def)
qed

section \<open>Costs that fit the machine integers\<close>

lemma sint_INT_MAX: "sint INT_MAX = 2147483647"
  by (simp add: INT_MAX_def)

lemma sint_split_cost:
  assumes "- 2147483648 \<le> exact_split_cost mats mc a b k"
    and "exact_split_cost mats mc a b k \<le> 2147483647"
  shows "sint (split_cost mats mc a b k) = exact_split_cost mats mc a b k"
proof -
  have "split_cost mats mc a b k = mc ! a ! k + mc ! (k + 1) ! b +
      word_of_int (sint (m_nrow (mats ! a)) * sint (m_ncol (mats ! k)) *
        (2 * sint (m_ncol (mats ! b)) - 1))"
    unfolding split_cost_def by (simp only: mult_term_exact)
  then show ?thesis
    using assms unfolding exact_split_cost_def by (simp only: sint_sum3)
qed

lemma no_overflow_range:
  assumes "no_overflow mats" "fill_tables mats = (mc, mi)" "a \<le> k" "k < b" "b < length mats"
  shows "- 2147483648 \<le> exact_split_cost mats mc a b k"
    and "exact_split_cost mats mc a b k < 2147483647"
proof -
  have "\<forall>j\<in>{0..<length mats}. \<forall>i\<in>{0..<j}. \<forall>k\<in>{i..<j}.
      - 2147483648 \<le> exact_split_cost mats mc i j k \<and>
      exact_split_cost mats mc i j k < 2147483647"
    using assms(1,2) by (simp add: no_overflow_def)
  then have "\<forall>k\<in>{a..<b}. - 2147483648 \<le> exact_split_cost mats mc a b k \<and>
      exact_split_cost mats mc a b k < 2147483647"
    using assms(3-5) by simp
  then show "- 2147483648 \<le> exact_split_cost mats mc a b k"
    and "exact_split_cost mats mc a b k < 2147483647"
    using assms(3,4) by simp_all
qed

lemma no_overflow_sint:
  assumes "no_overflow mats" "fill_tables mats = (mc, mi)" "a \<le> k" "k < b" "b < length mats"
  shows "sint (split_cost mats mc a b k) = exact_split_cost mats mc a b k"
  using no_overflow_range [OF assms] by (intro sint_split_cost) simp_all

lemma no_overflow_recorded:
  assumes "no_overflow mats" "fill_tables mats = (mc, mi)" "a < b" "b < length mats"
  shows "\<exists>k. a \<le> k \<and> k < b \<and> split_cost mats mc a b k <s INT_MAX"
proof -
  have "sint (split_cost mats mc a b a) < sint INT_MAX"
    using no_overflow_sint [OF assms(1,2) _ assms(3,4), of a]
      no_overflow_range(2) [OF assms(1,2) _ assms(3,4), of a]
    by (simp add: sint_INT_MAX)
  then show ?thesis
    using assms(3) by (intro exI [of _ a]) (simp add: word_sless_alt)
qed

lemma exact_lower:
  assumes ne: "mats \<noteq> []" and ft: "fill_tables mats = (mc, mi)" and no: "no_overflow mats"
  shows "positions g = [a..<Suc b] \<Longrightarrow> b < length mats \<Longrightarrow> sint (mc ! a ! b) \<le> exact_cost mats g"
proof (induction g arbitrary: a b)
  case (Mat i)
  then have "[i] = [a..<Suc b]" by (simp only: positions.simps)
  then have "a = i \<and> b = i" by (rule single_window)
  then show ?case
    using fill_tables_result(4) [OF ne ft, of i] Mat.prems(2) by simp
next
  case (Mult l r)
  have "positions l @ positions r = [a..<Suc b]"
    using Mult.prems(1) by (simp only: positions.simps)
  from positions_split [OF this] obtain k where k: "a \<le> k" "k < b"
    "positions l = [a..<Suc k]" "positions r = [Suc k..<Suc b]"
    by blast
  have kn: "k < length mats" and ab: "a < b"
    using k Mult.prems(2) by simp_all
  have l: "sint (mc ! a ! k) \<le> exact_cost mats l"
    by (rule Mult.IH(1) [OF k(3) kn])
  have r: "sint (mc ! Suc k ! b) \<le> exact_cost mats r"
    by (rule Mult.IH(2) [OF k(4) Mult.prems(2)])
  have ends: "first_pos l = a" "last_pos l = k" "last_pos r = b"
    using window_ends [OF k(3)] window_ends [OF k(4)] by simp_all
  have "sint (mc ! a ! b) \<le> sint (split_cost mats mc a b k)"
    using recorded_split(4) [OF ne ft ab Mult.prems(2) no_overflow_recorded [OF no ft ab Mult.prems(2)]
        k(1,2)]
    by (simp add: word_sle_eq)
  also have "\<dots> = exact_split_cost mats mc a b k"
    by (rule no_overflow_sint [OF no ft k(1,2) Mult.prems(2)])
  also have "\<dots> \<le> exact_cost mats (Mult l r)"
    using l r by (simp add: exact_split_cost_def ends)
  finally show ?case .
qed

lemma no_overflowI:
  assumes "fill_tables mats = (mc, mi)"
    and "\<And>i j k. i \<le> k \<Longrightarrow> k < j \<Longrightarrow> j < length mats \<Longrightarrow>
      - 2147483648 \<le> exact_split_cost mats mc i j k \<and> exact_split_cost mats mc i j k < 2147483647"
  shows "no_overflow mats"
  unfolding no_overflow_def assms(1) using assms(2) by simp

lemma fill_tables_ABC:
  "fill_tables ABC = ([[0, 50, 164], [0, 0, 285], [0, 0, 0]], [[0, 0, 1], [0, 0, 1], [0, 0, 0]])"
  by code_simp

lemma windows_of_3:
  assumes "i \<le> k" "k < j" "j < (3::nat)"
  shows "(i, k, j) = (0, 0, 1) \<or> (i, k, j) = (0, 0, 2) \<or> (i, k, j) = (0, 1, 2) \<or> (i, k, j) = (1, 1, 2)"
  using assms by auto

lemma no_overflow_ABC: "no_overflow ABC"
proof (rule no_overflowI [OF fill_tables_ABC])
  fix i j k :: nat
  assume "i \<le> k" "k < j" "j < length ABC"
  then have "(i, k, j) = (0, 0, 1) \<or> (i, k, j) = (0, 0, 2) \<or> (i, k, j) = (0, 1, 2) \<or> (i, k, j) = (1, 1, 2)"
    by (intro windows_of_3) (simp_all add: ABC_def)
  then show "- 2147483648 \<le> exact_split_cost ABC [[0, 50, 164], [0, 0, 285], [0, 0, 0]] i j k \<and>
      exact_split_cost ABC [[0, 50, 164], [0, 0, 285], [0, 0, 0]] i j k < 2147483647"
    by (auto simp: exact_split_cost_def ABC_def new_Matrix_def)
qed

text \<open>Chains of \<open>n\<close> matrices with dimensions up to \<open>d\<close> are free of overflow when
  \<open>(n - 1) * d * d * (2 * d - 1)\<close> is below \<open>INT_MAX\<close>.\<close>

lemma term_bound:
  fixes r c c' d :: int
  assumes "0 \<le> r" "r \<le> d" "1 \<le> c" "c \<le> d" "1 \<le> c'" "c' \<le> d"
  shows "0 \<le> r * c * (2 * c' - 1)" and "r * c * (2 * c' - 1) \<le> d * d * (2 * d - 1)"
proof -
  have rc: "0 \<le> r * c" "r * c \<le> d * d"
    using assms by (simp_all add: mult_mono)
  show "0 \<le> r * c * (2 * c' - 1)"
    using rc(1) assms(5) by simp
  have "r * c * (2 * c' - 1) \<le> (d * d) * (2 * d - 1)"
    using rc assms by (intro mult_mono) simp_all
  then show "r * c * (2 * c' - 1) \<le> d * d * (2 * d - 1)"
    by simp
qed

lemma bounded_entries:
  assumes ne: "mats \<noteq> []" and ft: "fill_tables mats = (mc, mi)"
    and bd: "bounded_dims d mats"
    and fit: "(int (length mats) - 1) * (d * d * (2 * d - 1)) < 2147483647"
  shows "a \<le> b \<Longrightarrow> b < length mats \<Longrightarrow>
    0 \<le> sint (mc ! a ! b) \<and> sint (mc ! a ! b) \<le> (int b - int a) * (d * d * (2 * d - 1))"
proof (induction "b - a" arbitrary: a b rule: less_induct)
  case less
  define B where "B = d * d * (2 * d - 1)"
  have dims: "0 \<le> sint (m_nrow (mats ! x)) \<and> sint (m_nrow (mats ! x)) \<le> d \<and>
      1 \<le> sint (m_ncol (mats ! x)) \<and> sint (m_ncol (mats ! x)) \<le> d" if "x < length mats" for x
    using bd that unfolding bounded_dims_def by simp
  have B0: "0 \<le> B"
    using term_bound(1) [of 0 d 1 1] dims [of 0] ne term_bound(2) [of 0 d 1 1]
    by (simp add: B_def)
  show ?case
  proof (cases "a = b")
    case True
    then show ?thesis
      using fill_tables_result(4) [OF ne ft less.prems(2)] by simp
  next
    case False
    with less.prems have ab: "a < b" by simp
    have cand: "0 \<le> exact_split_cost mats mc a b k \<and>
        exact_split_cost mats mc a b k \<le> (int b - int a) * B" if k: "a \<le> k" "k < b" for k
    proof -
      have kn: "k < length mats" "Suc k < length mats" "a < length mats"
        using k less.prems by simp_all
      have l: "0 \<le> sint (mc ! a ! k) \<and> sint (mc ! a ! k) \<le> (int k - int a) * B"
        using less.hyps [of k a] k kn less.prems by (simp add: B_def)
      have r: "0 \<le> sint (mc ! Suc k ! b) \<and> sint (mc ! Suc k ! b) \<le> (int b - int (Suc k)) * B"
        using less.hyps [of b "Suc k"] k kn less.prems by (simp add: B_def)
      have "0 \<le> sint (m_nrow (mats ! a))" "sint (m_nrow (mats ! a)) \<le> d"
        "1 \<le> sint (m_ncol (mats ! k))" "sint (m_ncol (mats ! k)) \<le> d"
        "1 \<le> sint (m_ncol (mats ! b))" "sint (m_ncol (mats ! b)) \<le> d"
        using dims [OF kn(3)] dims [OF kn(1)] dims [OF less.prems(2)] by simp_all
      note t = term_bound [OF this, folded B_def]
      have "(int k - int a) * B + (int b - int (Suc k)) * B + B = (int b - int a) * B"
        by (simp add: algebra_simps)
      then show ?thesis
        using l r t unfolding exact_split_cost_def by simp
    qed
    have top: "(int b - int a) * B \<le> (int (length mats) - 1) * B"
      using less.prems B0 by (intro mult_right_mono) simp_all
    have fits: "- 2147483648 \<le> exact_split_cost mats mc a b k"
      "exact_split_cost mats mc a b k < 2147483647" if "a \<le> k" "k < b" for k
      using cand [OF that] top fit by (simp_all add: B_def)
    have s: "sint (split_cost mats mc a b k) = exact_split_cost mats mc a b k"
      if "a \<le> k" "k < b" for k
      using fits [OF that] by (intro sint_split_cost) simp_all
    have "split_cost mats mc a b a <s INT_MAX"
      using s [of a] fits(2) [of a] ab by (simp add: word_sless_alt sint_INT_MAX)
    then have ex: "\<exists>k. a \<le> k \<and> k < b \<and> split_cost mats mc a b k <s INT_MAX"
      using ab by blast
    note rs = recorded_split(1-3) [OF ne ft ab less.prems(2) ex]
    have "sint (mc ! a ! b) = exact_split_cost mats mc a b (mi ! a ! b)"
      using s [OF rs(1,2)] rs(3) by simp
    then show ?thesis
      using cand [OF rs(1,2)] by (simp add: B_def)
  qed
qed

lemma bounded_no_overflow:
  assumes ne: "mats \<noteq> []" and bd: "bounded_dims d mats"
    and fit: "(int (length mats) - 1) * (d * d * (2 * d - 1)) < 2147483647"
  shows "no_overflow mats"
proof -
  obtain mc mi where ft: "fill_tables mats = (mc, mi)"
    by (cases "fill_tables mats")
  define B where "B = d * d * (2 * d - 1)"
  have dims: "0 \<le> sint (m_nrow (mats ! x)) \<and> sint (m_nrow (mats ! x)) \<le> d \<and>
      1 \<le> sint (m_ncol (mats ! x)) \<and> sint (m_ncol (mats ! x)) \<le> d" if "x < length mats" for x
    using bd that unfolding bounded_dims_def by simp
  have B0: "0 \<le> B"
    using term_bound(1) [of 0 d 1 1] dims [of 0] ne term_bound(2) [of 0 d 1 1]
    by (simp add: B_def)
  show ?thesis
  proof (rule no_overflowI [OF ft])
    fix i j k
    assume k: "i \<le> k" "k < j" and j: "j < length mats"
    have kn: "k < length mats" "Suc k < length mats" "i < length mats"
      using k j by simp_all
    have l: "0 \<le> sint (mc ! i ! k) \<and> sint (mc ! i ! k) \<le> (int k - int i) * B"
      using bounded_entries [OF ne ft bd fit k(1) kn(1)] by (simp add: B_def)
    have r: "0 \<le> sint (mc ! Suc k ! j) \<and> sint (mc ! Suc k ! j) \<le> (int j - int (Suc k)) * B"
      using bounded_entries [OF ne ft bd fit _ j, of "Suc k"] k by (simp add: B_def)
    have "0 \<le> sint (m_nrow (mats ! i))" "sint (m_nrow (mats ! i)) \<le> d"
      "1 \<le> sint (m_ncol (mats ! k))" "sint (m_ncol (mats ! k)) \<le> d"
      "1 \<le> sint (m_ncol (mats ! j))" "sint (m_ncol (mats ! j)) \<le> d"
      using dims [OF kn(3)] dims [OF kn(1)] dims [OF j] by simp_all
    note t = term_bound [OF this, folded B_def]
    have "(int k - int i) * B + (int j - int (Suc k)) * B + B = (int j - int i) * B"
      by (simp add: algebra_simps)
    moreover have "(int j - int i) * B \<le> (int (length mats) - 1) * B"
      using j B0 by (intro mult_right_mono) simp_all
    ultimately show "- 2147483648 \<le> exact_split_cost mats mc i j k \<and>
        exact_split_cost mats mc i j k < 2147483647"
      using l r t fit unfolding exact_split_cost_def B_def by simp
  qed
qed

section \<open>Rendering and evaluating the recorded order\<close>

lemma render_eval:
  assumes ne: "mats \<noteq> []" and ft: "fill_tables mats = (mc, mi)"
    and adj: "for_each_adjacent_pair dims_compatible mats"
    and names: "mat_names = [] \<or> length mat_names = length mats"
    and rec: "\<And>a b. a < b \<Longrightarrow> b < length mats \<Longrightarrow>
        \<exists>k. a \<le> k \<and> k < b \<and> split_cost mats mc a b k <s INT_MAX"
  shows "a \<le> b \<Longrightarrow> b < length mats \<Longrightarrow>
    \<exists>g. positions g = [a..<Suc b] \<and>
        order_to_string mi a b mat_names = Some (show_grouping mat_names g) \<and>
        eval_grouping mats g =
          Inr \<lparr>m_nrow = m_nrow (mats ! a), m_ncol = m_ncol (mats ! b), m_flops = mc ! a ! b\<rparr> \<and>
        (no_overflow mats \<longrightarrow> exact_cost mats g = sint (mc ! a ! b))"
proof (induction "b - a" arbitrary: a b rule: less_induct)
  case less
  note wf = fill_tables_result(1,2) [OF ne ft]
  show ?case
  proof (cases "a = b")
    case True
    have "order_to_string mi a b mat_names = Some (show_grouping mat_names (Mat a))"
      using True less.prems names
      by (subst order_to_string.simps) (auto simp: label_def)
    moreover have "mc ! a ! b = 0"
      using True fill_tables_result(4) [OF ne ft] less.prems by simp
    ultimately show ?thesis
      using True by (intro exI [of _ "Mat a"]) (simp add: new_Matrix_def)
  next
    case False
    with less.prems have ab: "a < b" by simp
    define m where "m = mi ! a ! b"
    have m: "a \<le> m" "m < b" and cost: "mc ! a ! b = split_cost mats mc a b m"
      using recorded_split(1-3) [OF ne ft ab less.prems(2) rec [OF ab less.prems(2)]]
      by (simp_all add: m_def)
    from less.hyps [of m a] m less.prems obtain gl where
      gl: "positions gl = [a..<Suc m]"
      "order_to_string mi a m mat_names = Some (show_grouping mat_names gl)"
      "eval_grouping mats gl =
         Inr \<lparr>m_nrow = m_nrow (mats ! a), m_ncol = m_ncol (mats ! m), m_flops = mc ! a ! m\<rparr>"
      "no_overflow mats \<longrightarrow> exact_cost mats gl = sint (mc ! a ! m)"
      by force
    from less.hyps [of b "Suc m"] m less.prems obtain gr where
      gr: "positions gr = [Suc m..<Suc b]"
      "order_to_string mi (Suc m) b mat_names = Some (show_grouping mat_names gr)"
      "eval_grouping mats gr =
         Inr \<lparr>m_nrow = m_nrow (mats ! Suc m), m_ncol = m_ncol (mats ! b),
              m_flops = mc ! Suc m ! b\<rparr>"
      "no_overflow mats \<longrightarrow> exact_cost mats gr = sint (mc ! Suc m ! b)"
      by force
    have bounds: "a < length mi" "b < length (mi ! a)"
      using wf(2) less.prems ab by (auto simp: wf_tbl_def)
    have "order_to_string mi a b mat_names
        = Some (show_grouping mat_names (Mult gl gr))"
      using False bounds gl(2) gr(2)
      by (subst order_to_string.simps) (simp add: m_def [symmetric])
    moreover have "positions (Mult gl gr) = [a..<Suc b]"
    proof -
      have "[a..<Suc m] @ [Suc m..<Suc b] = [a..<Suc b]"
        by (rule upt_append_upt) (use m in auto)
      then show ?thesis
        by (simp only: positions.simps gl(1) gr(1))
    qed
    moreover have "m_ncol (mats ! m) = m_nrow (mats ! Suc m)"
      using adjacent_nth [OF adj, of m] m less.prems by simp
    then have "eval_grouping mats (Mult gl gr) =
        Inr \<lparr>m_nrow = m_nrow (mats ! a), m_ncol = m_ncol (mats ! b), m_flops = mc ! a ! b\<rparr>"
      using gl(3) gr(3) cost
      by (simp add: operator_times_def calc_mat_mult_flops_def split_cost_def)
    moreover have "exact_cost mats (Mult gl gr) = sint (mc ! a ! b)" if no: "no_overflow mats"
    proof -
      have ends: "first_pos gl = a" "last_pos gl = m" "last_pos gr = b"
        using window_ends [OF gl(1)] window_ends [OF gr(1)] by simp_all
      have "exact_cost mats (Mult gl gr) = exact_split_cost mats mc a b m"
        using gl(4) gr(4) no by (simp add: exact_split_cost_def ends)
      also have "\<dots> = sint (split_cost mats mc a b m)"
        by (rule no_overflow_sint [OF no ft m less.prems(2), symmetric])
      finally show ?thesis
        by (simp only: cost)
    qed
    ultimately show ?thesis by blast
  qed
qed

lemma render_whole:
  assumes ne: "mats \<noteq> []" and ft: "fill_tables mats = (mc, mi)"
    and adj: "for_each_adjacent_pair dims_compatible mats"
    and names: "mat_names = [] \<or> length mat_names = length mats"
    and rec: "\<And>a b. a < b \<Longrightarrow> b < length mats \<Longrightarrow>
        \<exists>k. a \<le> k \<and> k < b \<and> split_cost mats mc a b k <s INT_MAX"
  shows "\<exists>g. positions g = [0..<length mats] \<and>
      calc_optimal_mult_order mats mat_names
        = Some (Inr (show_grouping mat_names g, mc ! 0 ! (length mats - 1))) \<and>
      eval_grouping mats g = Inr \<lparr>m_nrow = m_nrow (mats ! 0),
        m_ncol = m_ncol (mats ! (length mats - 1)), m_flops = mc ! 0 ! (length mats - 1)\<rparr> \<and>
      (no_overflow mats \<longrightarrow> exact_cost mats g = sint (mc ! 0 ! (length mats - 1)))"
proof -
  have n: "length mats - 1 < length mats" "Suc (length mats - 1) = length mats"
    using ne by (cases mats; simp)+
  have "\<exists>g. positions g = [0..<Suc (length mats - 1)] \<and>
      order_to_string mi 0 (length mats - 1) mat_names = Some (show_grouping mat_names g) \<and>
      eval_grouping mats g = Inr \<lparr>m_nrow = m_nrow (mats ! 0),
        m_ncol = m_ncol (mats ! (length mats - 1)), m_flops = mc ! 0 ! (length mats - 1)\<rparr> \<and>
      (no_overflow mats \<longrightarrow> exact_cost mats g = sint (mc ! 0 ! (length mats - 1)))"
    by (rule render_eval [OF ne ft adj names rec]) (use n(1) in simp_all)
  then obtain g where g: "positions g = [0..<length mats]"
    "order_to_string mi 0 (length mats - 1) mat_names = Some (show_grouping mat_names g)"
    "eval_grouping mats g = Inr \<lparr>m_nrow = m_nrow (mats ! 0),
        m_ncol = m_ncol (mats ! (length mats - 1)), m_flops = mc ! 0 ! (length mats - 1)\<rparr>"
    "no_overflow mats \<longrightarrow> exact_cost mats g = sint (mc ! 0 ! (length mats - 1))"
    unfolding n(2) by blast
  have "calc_optimal_mult_order mats mat_names
      = Some (Inr (show_grouping mat_names g, mc ! 0 ! (length mats - 1)))"
    using ne adj names ft g(2) by (simp add: calc_optimal_mult_order_def)
  with g(1,3,4) show ?thesis by blast
qed

lemma not_sless_INT_MAX: "\<not> c <s INT_MAX \<Longrightarrow> c = INT_MAX"
proof -
  assume "\<not> c <s INT_MAX"
  then have "sint c = 2147483647"
    using sint_range [of c] by (simp add: word_sless_alt INT_MAX_def)
  then have "word_of_int (sint c) = (word_of_int 2147483647 :: cint)"
    by simp
  then show ?thesis
    by (simp add: INT_MAX_def)
qed

lemma window_entry:
  assumes "mats \<noteq> []" "fill_tables mats = (mc, mi)" "a < b" "b < length mats"
  shows "mi ! a ! b < b" and "a \<le> mi ! a ! b \<Longrightarrow> mc ! a ! b = split_cost mats mc a b (mi ! a ! b)"
proof -
  note p = window_picked [OF assms]
  show "mi ! a ! b < b"
  proof (cases "\<exists>k. a \<le> k \<and> k < b \<and> split_cost mats mc a b k <s INT_MAX")
    case True
    then show ?thesis using p unfolding picked_def by simp
  next
    case False
    then have "(mc ! a ! b, mi ! a ! b) = (INT_MAX, 0)"
      using p unfolding picked_def by auto
    then show ?thesis using assms(3) by simp
  qed
  show "mc ! a ! b = split_cost mats mc a b (mi ! a ! b)" if "a \<le> mi ! a ! b"
  proof (cases "\<exists>k. a \<le> k \<and> k < b \<and> split_cost mats mc a b k <s INT_MAX")
    case True
    then show ?thesis using p unfolding picked_def by simp
  next
    case False
    then have e: "mc ! a ! b = INT_MAX" "mi ! a ! b = 0"
      using p unfolding picked_def by auto
    with that have "a = 0" by simp
    with False assms(3) have "\<not> split_cost mats mc a b 0 <s INT_MAX"
      by auto
    from not_sless_INT_MAX [OF this] show ?thesis
      using e by simp
  qed
qed

lemma render_partial:
  assumes ne: "mats \<noteq> []" and ft: "fill_tables mats = (mc, mi)"
    and adj: "for_each_adjacent_pair dims_compatible mats"
    and run: "order_to_string mi a b mat_names = Some s"
    and ab: "a < length mats" "b < length mats"
  shows "a \<le> b \<and> (\<exists>g. positions g = [a..<Suc b] \<and> s = show_grouping mat_names g \<and>
        eval_grouping mats g =
          Inr \<lparr>m_nrow = m_nrow (mats ! a), m_ncol = m_ncol (mats ! b), m_flops = mc ! a ! b\<rparr>)"
proof -
  define P where "P = (\<lambda>(t :: nat list list) a b (names :: string list) s.
      t = mi \<and> a < length mats \<and> b < length mats \<longrightarrow>
      a \<le> b \<and> (\<exists>g. positions g = [a..<Suc b] \<and> s = show_grouping names g \<and>
        eval_grouping mats g =
          Inr \<lparr>m_nrow = m_nrow (mats ! a), m_ncol = m_ncol (mats ! b), m_flops = mc ! a ! b\<rparr>))"
  have "P mi a b mat_names s"
  proof (rule order_to_string.raw_induct [OF _ run])
    fix f t a b names s
    assume IH: "\<And>t a b names y. f t a b names = Some y \<Longrightarrow> P t a b names y"
      and body: "(if a = b
        then if names \<noteq> []
             then if a < length names then Some (names ! a) else None
             else Some (''M'' @ to_string (int a + 1))
        else if a < length t \<and> b < length (t ! a)
             then Option.bind (f t a (t ! a ! b) names)
                   (\<lambda>l. Option.bind (f t (t ! a ! b + 1) b names)
                         (\<lambda>r. Some (''('' @ l @ '' * '' @ r @ '')'')))
             else None) = Some s"
    show "P t a b names s"
      unfolding P_def
    proof (intro impI)
      assume h: "t = mi \<and> a < length mats \<and> b < length mats"
      then have t: "t = mi" and an: "a < length mats" and bn: "b < length mats"
        by simp_all
      show "a \<le> b \<and> (\<exists>g. positions g = [a..<Suc b] \<and> s = show_grouping names g \<and>
        eval_grouping mats g =
          Inr \<lparr>m_nrow = m_nrow (mats ! a), m_ncol = m_ncol (mats ! b), m_flops = mc ! a ! b\<rparr>)"
      proof (cases "a = b")
        case True
        with body have "s = show_grouping names (Mat a)"
          by (auto simp: label_def split: if_splits)
        moreover have "mc ! a ! b = 0"
          using True fill_tables_result(4) [OF ne ft an] by simp
        ultimately show ?thesis
          using True by (intro conjI exI [of _ "Mat a"]) (simp_all add: new_Matrix_def)
      next
        case False
        define m where "m = mi ! a ! b"
        from body False t obtain l r where
          l: "f mi a m names = Some l"
          and r: "f mi (m + 1) b names = Some r"
          and s: "s = ''('' @ l @ '' * '' @ r @ '')''"
          by (auto simp: m_def bind_eq_Some_conv split: if_splits)
        have n2: "1 < length mats"
          using False an bn by simp
        have mb: "m < b \<or> m = 0"
        proof (cases "a < b")
          case True
          then show ?thesis
            using window_entry(1) [OF ne ft True bn] by (simp add: m_def)
        next
          case False
          then show ?thesis
            using fill_tables_result(5) [OF ne ft an, of b] by (simp add: m_def)
        qed
        then have mn: "m < length mats" "m + 1 < length mats"
          using bn n2 by auto
        from IH [OF l] an mn(1) obtain gl where am: "a \<le> m"
          and gl: "positions gl = [a..<Suc m]" "l = show_grouping names gl"
          "eval_grouping mats gl =
             Inr \<lparr>m_nrow = m_nrow (mats ! a), m_ncol = m_ncol (mats ! m), m_flops = mc ! a ! m\<rparr>"
          unfolding P_def by auto
        from IH [OF r] mn(2) bn obtain gr where mb': "m + 1 \<le> b"
          and gr: "positions gr = [Suc m..<Suc b]" "r = show_grouping names gr"
          "eval_grouping mats gr =
             Inr \<lparr>m_nrow = m_nrow (mats ! Suc m), m_ncol = m_ncol (mats ! b),
                  m_flops = mc ! Suc m ! b\<rparr>"
          unfolding P_def by auto
        have ab: "a < b"
          using am mb' by simp
        have cost: "mc ! a ! b = split_cost mats mc a b m"
          using window_entry(2) [OF ne ft ab bn] am by (simp add: m_def)
        have "positions (Mult gl gr) = [a..<Suc b]"
        proof -
          have "[a..<Suc m] @ [Suc m..<Suc b] = [a..<Suc b]"
            by (rule upt_append_upt) (use am mb' in auto)
          then show ?thesis
            by (simp only: positions.simps gl(1) gr(1))
        qed
        moreover have "s = show_grouping names (Mult gl gr)"
          using s gl(2) gr(2) by simp
        moreover have "m_ncol (mats ! m) = m_nrow (mats ! Suc m)"
          using adjacent_nth [OF adj, of m] mn(2) by simp
        then have "eval_grouping mats (Mult gl gr) =
            Inr \<lparr>m_nrow = m_nrow (mats ! a), m_ncol = m_ncol (mats ! b), m_flops = mc ! a ! b\<rparr>"
          using gl(3) gr(3) cost
          by (simp add: operator_times_def calc_mat_mult_flops_def split_cost_def)
        ultimately show ?thesis
          using ab by (intro conjI exI [of _ "Mult gl gr"]) simp_all
      qed
    qed
  qed
  then show ?thesis
    unfolding P_def using ab by blast
qed

lemma recorded_from_def:
  assumes "splits_recorded mats" "fill_tables mats = (mc, mi)" "a < b" "b < length mats"
  shows "\<exists>k. a \<le> k \<and> k < b \<and> split_cost mats mc a b k <s INT_MAX"
proof -
  have "\<forall>j\<in>{0..<length mats}. \<forall>i\<in>{0..<j}. \<exists>k\<in>{i..<j}.
      split_cost mats mc i j k <s INT_MAX"
    using assms(1,2) by (simp add: splits_recorded_def)
  then have "\<exists>k\<in>{a..<b}. split_cost mats mc a b k <s INT_MAX"
    using assms(3,4) by simp
  then show ?thesis by auto
qed

lemma ABCD_hyps:
  "ABCD \<noteq> []" "for_each_adjacent_pair dims_compatible ABCD" "splits_recorded ABCD"
  by (simp add: ABCD_def, code_simp, code_simp)

lemma order_to_string_stuck:
  assumes "min_index ! i ! j = j" "i \<noteq> j"
  shows "order_to_string min_index i j mat_names = None"
proof (rule ccontr)
  assume "order_to_string min_index i j mat_names \<noteq> None"
  then obtain s where s: "order_to_string min_index i j mat_names = Some s"
    by auto
  have "\<not> (mi = min_index \<and> a = i \<and> b = j)"
    if "order_to_string mi a b names = Some y" for mi a b names y
    using that
  proof (rule order_to_string.raw_induct [rotated])
    fix f mi a b names y
    assume IH: "\<And>mi a b names y. f mi a b names = Some y \<Longrightarrow> \<not> (mi = min_index \<and> a = i \<and> b = j)"
      and body: "(if a = b
        then if names \<noteq> []
             then if a < length names then Some (names ! a) else None
             else Some (''M'' @ to_string (int a + 1))
        else if a < length mi \<and> b < length (mi ! a)
             then Option.bind (f mi a (mi ! a ! b) names)
                   (\<lambda>l. Option.bind (f mi (mi ! a ! b + 1) b names)
                         (\<lambda>r. Some (''('' @ l @ '' * '' @ r @ '')'')))
             else None) = Some y"
    show "\<not> (mi = min_index \<and> a = i \<and> b = j)"
    proof
      assume eq: "mi = min_index \<and> a = i \<and> b = j"
      with body assms obtain l where "f min_index i j names = Some l"
        by (auto simp: bind_eq_Some_conv split: if_splits)
      from IH [OF this] show False by simp
    qed
  qed
  from this [OF s] show False by simp
qed

lemma fill_tables_hard_chain:
  "fill_tables hard_chain =
     ([[0, 4294967293, 2147483648], [0, 0, 2147483647], [0, 0, 0]],
      [[0, 0, 0], [0, 0, 0], [0, 0, 0]])"
  by code_simp

section \<open>Properties of the cost model\<close>

text \<open>
  C4. \<open>operator*\<close> succeeds exactly when the inner dimensions agree; the result then has
  the rows of the left operand, the columns of the right one and the flops
  \<open>a.flops + b.flops + a.rows * a.cols * (2 * b.cols - 1)\<close> (in \<open>int\<close> arithmetic);
  otherwise it throws the dimension error. \<open>A(2,5) * B(5,10)\<close> has shape \<open>(2,10)\<close> and
  190 flops.
\<close>

theorem operator_times_spec:
  "operator_times a b =
     (if m_ncol a = m_nrow b
      then Inr \<lparr>m_nrow = m_nrow a, m_ncol = m_ncol b,
                m_flops = m_flops a + m_flops b + m_nrow a * m_ncol a * (2 * m_ncol b - 1)\<rparr>
      else Inl (logic_error (''mult: dimensions do not match: '' @ diff_dims_error a b)))
   \<and> operator_times (new_Matrix 2 5) (new_Matrix 5 10)
       = Inr \<lparr>m_nrow = 2, m_ncol = 10, m_flops = 190\<rparr>"
  by (simp add: operator_times_def calc_mat_mult_flops_def new_Matrix_def)

theorem operator_times_spec_witness:
  "operator_times (new_Matrix 3 4) (new_Matrix 4 6)
     = Inr \<lparr>m_nrow = 3, m_ncol = 6, m_flops = 132\<rparr>
   \<and> operator_times (new_Matrix 2 5) (new_Matrix 4 10)
     = Inl (logic_error ''mult: dimensions do not match: A: 2x5, B: 4x10'')"
proof -
  have "diff_dims_error (new_Matrix 2 5) (new_Matrix 4 10) = ''A: 2x5, B: 4x10''"
    by code_simp
  then show ?thesis
    using operator_times_spec [of "new_Matrix 3 4" "new_Matrix 4 6"]
      operator_times_spec [of "new_Matrix 2 5" "new_Matrix 4 10"]
    by (simp add: new_Matrix_def)
qed

text \<open>
  C5. \<open>operator+\<close> succeeds exactly when both shapes agree; the result then has the same
  shape and the flops \<open>a.flops + b.flops + rows * cols\<close> (in \<open>int\<close> arithmetic);
  otherwise it throws the dimension error. \<open>A(2,10) + B(2,10)\<close> has shape \<open>(2,10)\<close> and
  20 flops.
\<close>

theorem operator_plus_spec:
  "operator_plus a b =
     (if m_nrow a = m_nrow b \<and> m_ncol a = m_ncol b
      then Inr \<lparr>m_nrow = m_nrow a, m_ncol = m_ncol a,
                m_flops = m_flops a + m_flops b + m_nrow a * m_ncol a\<rparr>
      else Inl (logic_error (''add: dimensions do not match: '' @ diff_dims_error a b)))
   \<and> operator_plus (new_Matrix 2 10) (new_Matrix 2 10)
       = Inr \<lparr>m_nrow = 2, m_ncol = 10, m_flops = 20\<rparr>"
  by (simp add: operator_plus_def calc_mat_add_flops_def new_Matrix_def)

theorem operator_plus_spec_witness:
  "operator_plus (new_Matrix 3 4) (new_Matrix 3 4)
     = Inr \<lparr>m_nrow = 3, m_ncol = 4, m_flops = 12\<rparr>
   \<and> operator_plus (new_Matrix 2 10) (new_Matrix 3 10)
     = Inl (logic_error ''add: dimensions do not match: A: 2x10, B: 3x10'')"
proof -
  have "diff_dims_error (new_Matrix 2 10) (new_Matrix 3 10) = ''A: 2x10, B: 3x10''"
    by code_simp
  then show ?thesis
    using operator_plus_spec [of "new_Matrix 3 4" "new_Matrix 3 4"]
      operator_plus_spec [of "new_Matrix 2 10" "new_Matrix 3 10"]
    by (simp add: new_Matrix_def)
qed

text \<open>
  C7, as stated, fails: multiplying by a matrix with no columns charges
  \<open>rows * cols * (2 * 0 - 1)\<close>, a negative number of flops, so the product of the fresh
  matrices \<open>A(2,5)\<close> and \<open>B(5,0)\<close> has \<open>-10\<close> flops, fewer than either operand. Adding
  the fresh \<open>C(2,0)\<close> to that product gives \<open>-10\<close> flops again, fewer than those of \<open>C\<close>.
  And the flops \<open>46341 * 46341 * (2 * 1 - 1)\<close> of the product of the fresh \<open>(46341, 46341)\<close>
  and \<open>(46341, 1)\<close> exceed \<open>INT_MAX\<close>: the \<open>int\<close> computed is negative.
\<close>

theorem cost_monotone_counterexample:
  "operator_times (new_Matrix 2 5) (new_Matrix 5 0)
     = Inr \<lparr>m_nrow = 2, m_ncol = 0, m_flops = - 10\<rparr>
   \<and> (- 10 :: cint) <s m_flops (new_Matrix 2 5)
   \<and> (0 :: cint) \<le>s 2 \<and> (0 :: cint) \<le>s 5 \<and> (0 :: cint) \<le>s 0
   \<and> operator_plus \<lparr>m_nrow = 2, m_ncol = 0, m_flops = - 10\<rparr> (new_Matrix 2 0)
     = Inr \<lparr>m_nrow = 2, m_ncol = 0, m_flops = - 10\<rparr>
   \<and> (- 10 :: cint) <s m_flops (new_Matrix 2 0)
   \<and> operator_times (new_Matrix 46341 46341) (new_Matrix 46341 1)
     = Inr \<lparr>m_nrow = 46341, m_ncol = 1, m_flops = - 2147479015\<rparr>
   \<and> (- 2147479015 :: cint) <s m_flops (new_Matrix 46341 46341)
   \<and> (0 :: cint) \<le>s 46341 \<and> (0 :: cint) \<le>s 1"
  by (simp add: operator_times_def operator_plus_def calc_mat_mult_flops_def
      calc_mat_add_flops_def new_Matrix_def word_sless_alt word_sle_eq)

text \<open>
  C7, amended. For operands with non-negative rows, columns and flops, the flops of a
  successful sum, and of a successful product whose right operand has at least one
  column, are at least the flops of each operand, provided the exact result does not
  exceed \<open>INT_MAX\<close>.
\<close>

theorem cost_monotone:
  assumes "0 \<le>s m_nrow a" "0 \<le>s m_ncol a" "0 \<le>s m_flops a"
    and "0 \<le>s m_nrow b" "0 \<le>s m_ncol b" "0 \<le>s m_flops b"
  shows "(operator_plus a b = Inr r \<and>
          sint (m_flops a) + sint (m_flops b) + sint (m_nrow a) * sint (m_ncol a) \<le> 2147483647
          \<longrightarrow> m_flops a \<le>s m_flops r \<and> m_flops b \<le>s m_flops r)
       \<and> (operator_times a b = Inr r \<and> 1 \<le>s m_ncol b \<and>
          sint (m_flops a) + sint (m_flops b) +
            sint (m_nrow a) * sint (m_ncol a) * (2 * sint (m_ncol b) - 1) \<le> 2147483647
          \<longrightarrow> m_flops a \<le>s m_flops r \<and> m_flops b \<le>s m_flops r)"
proof (intro conjI impI)
  have nn: "0 \<le> sint (m_nrow a)" "0 \<le> sint (m_ncol a)" "0 \<le> sint (m_flops a)"
    "0 \<le> sint (m_ncol b)" "0 \<le> sint (m_flops b)"
    using assms by (simp_all add: word_sle_eq)
  have p: "0 \<le> sint (m_nrow a) * sint (m_ncol a)"
    using nn by simp
  {
    assume h: "operator_plus a b = Inr r \<and>
      sint (m_flops a) + sint (m_flops b) + sint (m_nrow a) * sint (m_ncol a) \<le> 2147483647"
    then have r: "m_flops r = m_flops a + m_flops b
        + word_of_int (sint (m_nrow a) * sint (m_ncol a))"
      by (auto simp: operator_plus_def calc_mat_add_flops_def split: if_splits)
    have lo: "- 2147483648 \<le> sint (m_flops a) + sint (m_flops b)
        + sint (m_nrow a) * sint (m_ncol a)"
      using nn p by linarith
    have "sint (m_flops r) = sint (m_flops a) + sint (m_flops b)
        + sint (m_nrow a) * sint (m_ncol a)"
      unfolding r using h lo by (intro sint_sum3) blast+
    then show "m_flops a \<le>s m_flops r" "m_flops b \<le>s m_flops r"
      unfolding word_sle_eq using nn p by linarith+
  }
  {
    assume h: "operator_times a b = Inr r \<and> 1 \<le>s m_ncol b \<and>
      sint (m_flops a) + sint (m_flops b) +
        sint (m_nrow a) * sint (m_ncol a) * (2 * sint (m_ncol b) - 1) \<le> 2147483647"
    then have "1 \<le> sint (m_ncol b)"
      by (simp add: word_sle_eq)
    then have q: "0 \<le> sint (m_nrow a) * sint (m_ncol a) * (2 * sint (m_ncol b) - 1)"
      using p by simp
    from h have r: "m_flops r = m_flops a + m_flops b
        + word_of_int (sint (m_nrow a) * sint (m_ncol a) * (2 * sint (m_ncol b) - 1))"
      by (auto simp: operator_times_def calc_mat_mult_flops_def split: if_splits)
    have lo: "- 2147483648 \<le> sint (m_flops a) + sint (m_flops b)
        + sint (m_nrow a) * sint (m_ncol a) * (2 * sint (m_ncol b) - 1)"
      using nn q by linarith
    have "sint (m_flops r) = sint (m_flops a) + sint (m_flops b)
        + sint (m_nrow a) * sint (m_ncol a) * (2 * sint (m_ncol b) - 1)"
      unfolding r using h lo by (intro sint_sum3) blast+
    then show "m_flops a \<le>s m_flops r" "m_flops b \<le>s m_flops r"
      unfolding word_sle_eq using nn q by linarith+
  }
qed

theorem cost_monotone_witness:
  "(0 :: cint) \<le>s 2 \<and> (0 :: cint) \<le>s 5 \<and> (0 :: cint) \<le>s 10 \<and> (1 :: cint) \<le>s 10
   \<and> operator_times (new_Matrix 2 5) (new_Matrix 5 10)
       = Inr \<lparr>m_nrow = 2, m_ncol = 10, m_flops = 190\<rparr>
   \<and> operator_plus (new_Matrix 2 10) (new_Matrix 2 10)
       = Inr \<lparr>m_nrow = 2, m_ncol = 10, m_flops = 20\<rparr>
   \<and> m_flops (new_Matrix 2 5) \<le>s 190 \<and> m_flops (new_Matrix 5 10) \<le>s 190
   \<and> m_flops (new_Matrix 2 10) \<le>s 20"
  using cost_monotone [of "new_Matrix 2 5" "new_Matrix 5 10"
      "\<lparr>m_nrow = 2, m_ncol = 10, m_flops = 190\<rparr>"]
    cost_monotone [of "new_Matrix 2 10" "new_Matrix 2 10"
      "\<lparr>m_nrow = 2, m_ncol = 10, m_flops = 20\<rparr>"]
  by (simp add: operator_times_def operator_plus_def calc_mat_mult_flops_def
      calc_mat_add_flops_def new_Matrix_def word_sle_eq)

section \<open>Properties of the optimizer\<close>

text \<open>
  C6, amended. For a window \<open>[i, j]\<close> with \<open>i < j\<close> of which some split costs less than
  \<open>INT_MAX\<close>, the recorded \<open>min_index[i][j]\<close> lies in \<open>[i, j)\<close>, its candidate cost
  \<open>min_cost[i][k] + min_cost[k+1][j] + rows(i) * cols(k) * (2 * cols(j) - 1)\<close> is the
  recorded \<open>min_cost[i][j]\<close>, no split of the window costs less, and every earlier split
  costs strictly more: the first split of minimum cost is kept. Costs are compared as the
  loop compares them, as signed \<open>int\<close> values.
\<close>

theorem split_index_first_min:
  assumes "fill_tables mats = (min_cost, min_index)" and "i < j" and "j < length mats"
    and "\<exists>k. i \<le> k \<and> k < j \<and> split_cost mats min_cost i j k <s INT_MAX"
  shows "i \<le> min_index ! i ! j \<and> min_index ! i ! j < j
     \<and> min_cost ! i ! j = split_cost mats min_cost i j (min_index ! i ! j)
     \<and> (\<forall>k. i \<le> k \<and> k < j \<longrightarrow> min_cost ! i ! j \<le>s split_cost mats min_cost i j k)
     \<and> (\<forall>k. i \<le> k \<and> k < min_index ! i ! j \<longrightarrow> min_cost ! i ! j <s split_cost mats min_cost i j k)"
proof -
  have ne: "mats \<noteq> []" using assms(3) by auto
  show ?thesis
    using recorded_split [OF ne assms(1-4)] by blast
qed

theorem split_index_first_min_witness:
  "fill_tables ABCD =
    ([[0, 47200, 26600, 50200], [0, 0, 11400, 23200], [0, 0, 0, 17700], [0, 0, 0, 0]],
     [[0, 0, 0, 2], [0, 0, 1, 2], [0, 0, 0, 2], [0, 0, 0, 0]])
   \<and> (0::nat) < 3 \<and> 3 < length ABCD
   \<and> split_cost ABCD (fst (fill_tables ABCD)) 0 3 2 <s INT_MAX
   \<and> snd (fill_tables ABCD) ! 0 ! 3 = 2
   \<and> fst (fill_tables ABCD) ! 0 ! 3 = split_cost ABCD (fst (fill_tables ABCD)) 0 3 2
   \<and> fst (fill_tables ABCD) ! 0 ! 3 <s split_cost ABCD (fst (fill_tables ABCD)) 0 3 0
   \<and> fst (fill_tables ABCD) ! 0 ! 3 <s split_cost ABCD (fst (fill_tables ABCD)) 0 3 1"
proof -
  have len: "3 < length ABCD" by (simp add: ABCD_def)
  have c: "split_cost ABCD (fst (fill_tables ABCD)) 0 3 2 <s INT_MAX"
    unfolding fill_tables_ABCD
    by (simp add: split_cost_def ABCD_def new_Matrix_def INT_MAX_def word_sless_alt)
  have ex: "\<exists>k. 0 \<le> k \<and> k < 3 \<and> split_cost ABCD
      [[0, 47200, 26600, 50200], [0, 0, 11400, 23200], [0, 0, 0, 17700], [0, 0, 0, 0]] 0 3 k
      <s INT_MAX"
    using c unfolding fill_tables_ABCD by (intro exI [of _ 2]) simp
  have idx: "snd (fill_tables ABCD) ! 0 ! 3 = 2"
    unfolding fill_tables_ABCD by simp
  show ?thesis
    using split_index_first_min [OF fill_tables_ABCD _ len ex] c idx len fill_tables_ABCD
    by auto
qed

text \<open>
  C6, as stated, fails where the cheapest split costs exactly \<open>INT_MAX\<close>, the value the
  entry starts from: the strict comparison never records it. In the chain \<open>(0,
  2147483647), (2147483647, 1), (1, 1)\<close>, where nothing overflows, the window \<open>[1, 2]\<close> has
  the single split \<open>k = 1\<close>, of cost \<open>2147483647 * 1 * (2 * 1 - 1)\<close>, and
  \<open>min_index[1][2]\<close> keeps its initial 0, which is not in \<open>[1, 2)\<close>.
\<close>

theorem split_index_counterexample:
  "fill_tables flat_chain
     = ([[0, 0, 0], [0, 0, 2147483647], [0, 0, 0]], [[0, 0, 1], [0, 0, 0], [0, 0, 0]])
   \<and> snd (fill_tables flat_chain) ! 1 ! 2 = 0
   \<and> exact_split_cost flat_chain (fst (fill_tables flat_chain)) 1 2 1 = 2147483647
   \<and> split_cost flat_chain (fst (fill_tables flat_chain)) 1 2 1 = INT_MAX"
proof -
  have t: "fill_tables flat_chain
     = ([[0, 0, 0], [0, 0, 2147483647], [0, 0, 0]], [[0, 0, 1], [0, 0, 0], [0, 0, 0]])"
    by code_simp
  show ?thesis
    unfolding t by (simp add: exact_split_cost_def split_cost_def flat_chain_def new_Matrix_def
        INT_MAX_def)
qed

text \<open>
  C8. On the empty chain (with no names) the optimizer returns the empty expression and
  the cost 0; nothing is thrown.
\<close>

theorem empty_chain: "calc_optimal_mult_order [] [] = Some (Inr ('''', 0))"
  by (simp add: calc_optimal_mult_order_def)

text \<open>
  C9. On a single matrix the optimizer returns the cost 0 and, as the expression, the
  supplied name, or \<open>M1\<close> when no names are supplied.
\<close>

theorem single_matrix:
  "calc_optimal_mult_order [m] [] = Some (Inr (''M1'', 0))
   \<and> calc_optimal_mult_order [m] [nm] = Some (Inr (nm, 0))"
  by (simp add: calc_optimal_mult_order_def fill_tables_def order_to_string.simps
      to_string_def decimal_1)

text \<open>
  C3. On the chain \<open>A(40,20), B(20,30), C(30,10), D(10,30)\<close> with the names \<open>A, B, C, D\<close>
  the optimizer returns \<open>((A * (B * C)) * D)\<close> and 50200. Whatever non-empty chain it
  returns an expression for, the expression is the rendering of a binary grouping of the
  positions \<open>0, ..., n - 1\<close> in their order: every product is wrapped in parentheses, with
  the token \<open>*\<close> between its two operands.
\<close>

theorem optimal_order_expression:
  "calc_optimal_mult_order ABCD [''A'', ''B'', ''C'', ''D'']
     = Some (Inr (''((A * (B * C)) * D)'', 50200))
   \<and> (mats \<noteq> [] \<and> calc_optimal_mult_order mats mat_names = Some (Inr (s, c))
        \<longrightarrow> (\<exists>g. s = show_grouping mat_names g \<and> positions g = [0..<length mats]))"
proof -
  have "calc_optimal_mult_order ABCD [''A'', ''B'', ''C'', ''D'']
      = Some (Inr (''((A * (B * C)) * D)'', 50200))"
    by code_simp
  moreover have "\<exists>g. s = show_grouping mat_names g \<and> positions g = [0..<length mats]"
    if ne: "mats \<noteq> []" and ret: "calc_optimal_mult_order mats mat_names = Some (Inr (s, c))"
  proof -
    obtain mc mi where ft: "fill_tables mats = (mc, mi)"
      by (cases "fill_tables mats")
    have n: "0 < length mats" "length mats - 1 < length mats"
      "Suc (length mats - 1) = length mats"
      using ne by (cases mats; simp)+
    from ret ne ft have adj: "for_each_adjacent_pair dims_compatible mats"
      and run: "order_to_string mi 0 (length mats - 1) mat_names = Some s"
      by (auto simp: calc_optimal_mult_order_def split: if_splits option.splits)
    from render_partial [OF ne ft adj run n(1,2)] show ?thesis
      unfolding n(3) by blast
  qed
  ultimately show ?thesis by blast
qed

theorem optimal_order_expression_witness:
  "ABCD \<noteq> []
   \<and> calc_optimal_mult_order ABCD [] = Some (Inr (''((M1 * (M2 * M3)) * M4)'', 50200))
   \<and> (\<exists>g. ''((M1 * (M2 * M3)) * M4)'' = show_grouping [] g \<and> positions g = [0..<length ABCD])"
proof -
  have ne: "ABCD \<noteq> []" by (simp add: ABCD_def)
  have r: "calc_optimal_mult_order ABCD [] = Some (Inr (''((M1 * (M2 * M3)) * M4)'', 50200))"
    by code_simp
  show ?thesis
    using optimal_order_expression [of ABCD "[]" "''((M1 * (M2 * M3)) * M4)''" 50200] ne r
    by blast
qed

text \<open>
  C2, amended. For a non-empty adjacent-compatible chain: whenever the optimizer returns an
  expression and a cost, the expression is the rendering of a grouping of all positions
  \<open>0, ..., n - 1\<close>, and evaluating that grouping with \<open>operator*\<close> on freshly
  constructed matrices yields exactly the returned cost as its flops. And the optimizer
  does return when every window \<open>[i, j]\<close> with \<open>i < j\<close> has a split whose computed cost is
  below \<open>INT_MAX\<close>.
\<close>

theorem rendered_order_cost:
  assumes "mats \<noteq> []" and "for_each_adjacent_pair dims_compatible mats"
  shows "(calc_optimal_mult_order mats mat_names = Some (Inr (s, c)) \<longrightarrow>
           (\<exists>g m. s = show_grouping mat_names g \<and> positions g = [0..<length mats] \<and>
              eval_grouping mats g = Inr m \<and> m_flops m = c))
       \<and> ((mat_names = [] \<or> length mat_names = length mats) \<and> splits_recorded mats \<longrightarrow>
           (\<exists>g c. calc_optimal_mult_order mats mat_names
              = Some (Inr (show_grouping mat_names g, c))))"
proof (intro conjI impI)
  obtain mc mi where ft: "fill_tables mats = (mc, mi)"
    by (cases "fill_tables mats")
  have n: "0 < length mats" "length mats - 1 < length mats" "Suc (length mats - 1) = length mats"
    using assms(1) by (cases mats; simp)+
  {
    assume "calc_optimal_mult_order mats mat_names = Some (Inr (s, c))"
    then have run: "order_to_string mi 0 (length mats - 1) mat_names = Some s"
      and c: "c = mc ! 0 ! (length mats - 1)"
      using ft assms
      by (auto simp: calc_optimal_mult_order_def split: if_splits option.splits)
    from render_partial [OF assms(1) ft assms(2) run n(1,2)] obtain g where
      "positions g = [0..<Suc (length mats - 1)]" "s = show_grouping mat_names g"
      "eval_grouping mats g = Inr \<lparr>m_nrow = m_nrow (mats ! 0),
         m_ncol = m_ncol (mats ! (length mats - 1)), m_flops = mc ! 0 ! (length mats - 1)\<rparr>"
      by blast
    then show "\<exists>g m. s = show_grouping mat_names g \<and> positions g = [0..<length mats] \<and>
        eval_grouping mats g = Inr m \<and> m_flops m = c"
      unfolding n(3) c
      by (intro exI [of _ g] exI [of _ "\<lparr>m_nrow = m_nrow (mats ! 0),
         m_ncol = m_ncol (mats ! (length mats - 1)), m_flops = mc ! 0 ! (length mats - 1)\<rparr>"])
        simp
  }
  {
    assume h: "(mat_names = [] \<or> length mat_names = length mats) \<and> splits_recorded mats"
    then have names: "mat_names = [] \<or> length mat_names = length mats"
      and rec: "splits_recorded mats"
      by simp_all
    from render_whole [OF assms(1) ft assms(2) names recorded_from_def [OF rec ft]]
    show "\<exists>g c. calc_optimal_mult_order mats mat_names
        = Some (Inr (show_grouping mat_names g, c))"
      by blast
  }
qed

theorem rendered_order_cost_witness:
  "ABCD \<noteq> [] \<and> for_each_adjacent_pair dims_compatible ABCD \<and> splits_recorded ABCD
   \<and> calc_optimal_mult_order ABCD [] = Some (Inr (''((M1 * (M2 * M3)) * M4)'', 50200))
   \<and> (\<exists>g m. ''((M1 * (M2 * M3)) * M4)'' = show_grouping [] g \<and>
         positions g = [0..<length ABCD] \<and> eval_grouping ABCD g = Inr m \<and> m_flops m = 50200)
   \<and> eval_grouping ABCD (Mult (Mult (Mat 0) (Mult (Mat 1) (Mat 2))) (Mat 3))
       = Inr \<lparr>m_nrow = 40, m_ncol = 30, m_flops = 50200\<rparr>"
proof -
  have r: "calc_optimal_mult_order ABCD [] = Some (Inr (''((M1 * (M2 * M3)) * M4)'', 50200))"
    by code_simp
  have e: "eval_grouping ABCD (Mult (Mult (Mat 0) (Mult (Mat 1) (Mat 2))) (Mat 3))
       = Inr \<lparr>m_nrow = 40, m_ncol = 30, m_flops = 50200\<rparr>"
    by code_simp
  from rendered_order_cost [OF ABCD_hyps(1,2), of "[]" "''((M1 * (M2 * M3)) * M4)''" 50200] r
  have "\<exists>g m. ''((M1 * (M2 * M3)) * M4)'' = show_grouping [] g \<and>
         positions g = [0..<length ABCD] \<and> eval_grouping ABCD g = Inr m \<and> m_flops m = 50200"
    by blast
  then show ?thesis
    using ABCD_hyps r e by blast
qed

text \<open>
  C2, as stated, fails on the adjacent-compatible chain \<open>(1, 1), (1, 2147483647),
  (2147483647, 1)\<close>: the only split of the window \<open>[1, 2]\<close> costs exactly \<open>INT_MAX\<close>, so
  \<open>min_index[1][2]\<close> keeps its initial 0; the cheapest split of \<open>[0, 2]\<close> in \<open>int\<close>
  arithmetic is \<open>k = 0\<close>, and \<open>order_to_string\<close> then calls itself on \<open>(1, 2)\<close>, on
  \<open>(1, 0)\<close>, and on \<open>(1, 0)\<close> again without end: no expression and no cost are returned.
  (The flops of this chain do not fit an \<open>int\<close>.)
\<close>

theorem rendered_order_cost_counterexample:
  "hard_chain \<noteq> [] \<and> for_each_adjacent_pair dims_compatible hard_chain
   \<and> calc_optimal_mult_order hard_chain [] = None"
proof -
  have a: "hard_chain \<noteq> []" "for_each_adjacent_pair dims_compatible hard_chain"
    by (simp add: hard_chain_def, code_simp)
  have stuck: "order_to_string [[0, 0, 0], [0, 0, 0], [0, 0, 0]] (Suc 0) 0 [] = None"
    by (rule order_to_string_stuck) simp_all
  have "order_to_string [[0, 0, 0], [0, 0, 0], [0, 0, 0]] 1 2 [] = None"
    by (subst order_to_string.simps) (simp add: stuck)
  then have "order_to_string [[0, 0, 0], [0, 0, 0], [0, 0, 0]] 0 2 [] = None"
    by (subst order_to_string.simps) simp
  moreover have "length hard_chain - 1 = 2"
    by (simp add: hard_chain_def)
  ultimately have "calc_optimal_mult_order hard_chain [] = None"
    using a by (simp add: calc_optimal_mult_order_def fill_tables_hard_chain)
  with a show ?thesis by simp
qed

text \<open>
  C1, amended. For a non-empty adjacent-compatible chain in which the exact cost of every
  candidate split \<open>min_cost[i][k] + min_cost[k+1][j] + rows(i) * cols(k) * (2 * cols(j) - 1)\<close>
  lies in the \<open>int\<close> range below \<open>INT_MAX\<close>, the optimizer returns the rendering of a full
  parenthesization of the chain whose exact cost is the returned cost, and no full
  parenthesization of the chain costs less: the returned cost is the minimum.
\<close>

theorem optimal_cost_minimal:
  assumes "mats \<noteq> []" and "for_each_adjacent_pair dims_compatible mats"
    and "mat_names = [] \<or> length mat_names = length mats"
    and "no_overflow mats"
  shows "\<exists>g c. calc_optimal_mult_order mats mat_names = Some (Inr (show_grouping mat_names g, c))
     \<and> positions g = [0..<length mats] \<and> exact_cost mats g = sint c
     \<and> (\<forall>g'. positions g' = [0..<length mats] \<longrightarrow> sint c \<le> exact_cost mats g')"
proof -
  obtain mc mi where ft: "fill_tables mats = (mc, mi)"
    by (cases "fill_tables mats")
  have n: "length mats - 1 < length mats" "Suc (length mats - 1) = length mats"
    using assms(1) by (cases mats; simp)+
  from render_whole [OF assms(1) ft assms(2,3) no_overflow_recorded [OF assms(4) ft]] assms(4)
  obtain g where g: "positions g = [0..<length mats]"
    "calc_optimal_mult_order mats mat_names
       = Some (Inr (show_grouping mat_names g, mc ! 0 ! (length mats - 1)))"
    "exact_cost mats g = sint (mc ! 0 ! (length mats - 1))"
    by blast
  have "sint (mc ! 0 ! (length mats - 1)) \<le> exact_cost mats g'"
    if "positions g' = [0..<length mats]" for g'
    by (rule exact_lower [OF assms(1) ft assms(4) _ n(1)]) (simp only: n(2) that)
  with g show ?thesis by blast
qed

theorem optimal_cost_minimal_witness:
  "ABC \<noteq> [] \<and> for_each_adjacent_pair dims_compatible ABC \<and> no_overflow ABC
   \<and> calc_optimal_mult_order ABC [] = Some (Inr (''((M1 * M2) * M3)'', 164))
   \<and> exact_cost ABC (Mult (Mult (Mat 0) (Mat 1)) (Mat 2)) = 164
   \<and> exact_cost ABC (Mult (Mat 0) (Mult (Mat 1) (Mat 2))) = 475
   \<and> sint (164 :: cint) \<le> exact_cost ABC (Mult (Mat 0) (Mult (Mat 1) (Mat 2)))"
proof -
  have h: "ABC \<noteq> []" "for_each_adjacent_pair dims_compatible ABC"
    by (simp add: ABC_def, code_simp)
  have r: "calc_optimal_mult_order ABC [] = Some (Inr (''((M1 * M2) * M3)'', 164))"
    by code_simp
  have e: "exact_cost ABC (Mult (Mult (Mat 0) (Mat 1)) (Mat 2)) = 164"
    by code_simp
  have e': "exact_cost ABC (Mult (Mat 0) (Mult (Mat 1) (Mat 2))) = 475"
    by code_simp
  have p: "positions (Mult (Mat 0) (Mult (Mat 1) (Mat 2))) = [0..<length ABC]"
    by code_simp
  from optimal_cost_minimal [OF h _ no_overflow_ABC, of "[]"]
  obtain g c where
    c: "calc_optimal_mult_order ABC [] = Some (Inr (show_grouping [] g, c))"
    and least: "\<And>g'. positions g' = [0..<length ABC] \<Longrightarrow> sint c \<le> exact_cost ABC g'"
    by blast
  from c r have c164: "c = 164" by simp
  have l: "sint (164 :: cint) \<le> exact_cost ABC (Mult (Mat 0) (Mult (Mat 1) (Mat 2)))"
    using least [OF p] unfolding c164 by blast
  show ?thesis
    using h no_overflow_ABC r e e' l by blast
qed

text \<open>
  C1, as stated, fails where the minimum does not fit an \<open>int\<close>: the chain \<open>(2147483647,
  1), (1, 2)\<close> has the single parenthesization \<open>(M1 * M2)\<close>, of cost \<open>2147483647 * 1 *
  (2 * 2 - 1) = 6442450941\<close>, which no \<open>int\<close> equals; the optimizer returns 2147483645.
\<close>

theorem optimal_cost_counterexample:
  "big_pair \<noteq> [] \<and> for_each_adjacent_pair dims_compatible big_pair
   \<and> calc_optimal_mult_order big_pair [] = Some (Inr (''(M1 * M2)'', 2147483645))
   \<and> sint (2147483645 :: cint) = 2147483645
   \<and> positions (Mult (Mat 0) (Mat 1)) = [0..<length big_pair]
   \<and> exact_cost big_pair (Mult (Mat 0) (Mat 1)) = 6442450941"
proof -
  have "big_pair \<noteq> []"
    by (simp add: big_pair_def)
  moreover have "for_each_adjacent_pair dims_compatible big_pair"
    by code_simp
  moreover have "calc_optimal_mult_order big_pair [] = Some (Inr (''(M1 * M2)'', 2147483645))"
    by code_simp
  moreover have "sint (2147483645 :: cint) = 2147483645"
    by simp
  moreover have "positions (Mult (Mat 0) (Mat 1)) = [0..<length big_pair]"
    by code_simp
  moreover have "exact_cost big_pair (Mult (Mat 0) (Mat 1)) = 6442450941"
    by code_simp
  ultimately show ?thesis by blast
qed

text \<open>
  C10. In a non-empty adjacent-compatible chain every full parenthesization evaluates
  under \<open>operator*\<close> without a dimension failure, to a matrix with the rows of the first
  and the columns of the last matrix of the chain; so any two groupings of the chain
  evaluate to the same shape (their flops may differ).
\<close>

theorem groupings_same_shape:
  assumes "mats \<noteq> []" and "for_each_adjacent_pair dims_compatible mats"
    and "positions g = [0..<length mats]" and "positions g' = [0..<length mats]"
  shows "\<exists>m m'. eval_grouping mats g = Inr m \<and> eval_grouping mats g' = Inr m'
     \<and> m_nrow m = m_nrow (hd mats) \<and> m_ncol m = m_ncol (last mats)
     \<and> m_nrow m' = m_nrow m \<and> m_ncol m' = m_ncol m"
proof -
  have n: "length mats - 1 < length mats" "Suc (length mats - 1) = length mats"
    using assms(1) by (cases mats; simp)+
  have ends: "mats ! 0 = hd mats" "mats ! (length mats - 1) = last mats"
    using assms(1) by (simp_all add: hd_conv_nth last_conv_nth)
  have "\<exists>m. eval_grouping mats h = Inr m \<and> m_nrow m = m_nrow (mats ! 0)
      \<and> m_ncol m = m_ncol (mats ! (length mats - 1))"
    if "positions h = [0..<length mats]" for h
    by (rule eval_shape [OF assms(2) _ n(1)]) (simp only: n(2) that)
  from this [OF assms(3)] this [OF assms(4)] obtain m m' where
    "eval_grouping mats g = Inr m" "m_nrow m = m_nrow (hd mats)" "m_ncol m = m_ncol (last mats)"
    "eval_grouping mats g' = Inr m'" "m_nrow m' = m_nrow (hd mats)" "m_ncol m' = m_ncol (last mats)"
    unfolding ends by blast
  then show ?thesis by simp
qed

theorem groupings_same_shape_witness:
  "ABC \<noteq> [] \<and> for_each_adjacent_pair dims_compatible ABC
   \<and> positions (Mult (Mult (Mat 0) (Mat 1)) (Mat 2)) = [0..<length ABC]
   \<and> positions (Mult (Mat 0) (Mult (Mat 1) (Mat 2))) = [0..<length ABC]
   \<and> eval_grouping ABC (Mult (Mult (Mat 0) (Mat 1)) (Mat 2))
       = Inr \<lparr>m_nrow = 2, m_ncol = 10, m_flops = 164\<rparr>
   \<and> eval_grouping ABC (Mult (Mat 0) (Mult (Mat 1) (Mat 2)))
       = Inr \<lparr>m_nrow = 2, m_ncol = 10, m_flops = 475\<rparr>
   \<and> hd ABC = new_Matrix 2 5 \<and> last ABC = new_Matrix 3 10"
proof -
  have h: "ABC \<noteq> []" "for_each_adjacent_pair dims_compatible ABC"
    "positions (Mult (Mult (Mat 0) (Mat 1)) (Mat 2)) = [0..<length ABC]"
    "positions (Mult (Mat 0) (Mult (Mat 1) (Mat 2))) = [0..<length ABC]"
    by (simp add: ABC_def, code_simp, code_simp, code_simp)
  have e1: "eval_grouping ABC (Mult (Mult (Mat 0) (Mat 1)) (Mat 2))
       = Inr \<lparr>m_nrow = 2, m_ncol = 10, m_flops = 164\<rparr>"
    by code_simp
  have e2: "eval_grouping ABC (Mult (Mat 0) (Mult (Mat 1) (Mat 2)))
       = Inr \<lparr>m_nrow = 2, m_ncol = 10, m_flops = 475\<rparr>"
    by code_simp
  note e = e1 e2
  have x: "hd ABC = new_Matrix 2 5" "last ABC = new_Matrix 3 10"
    by (simp_all add: ABC_def)
  show ?thesis
    using groupings_same_shape [OF h] h e x by simp
qed

end
